theory Spec2Isabelle
  imports Complex_Main "HOL-Library.Word" "HOL-Library.Multiset" "HOL-Library.Log_Nat"
begin

unbundle bit_operations_syntax

section \<open>Data model of \<open>elementeditor.js\<close>\<close>

text \<open>
  A scene element (\<open>GXElement\<close>) is a node of the live scene tree. The scene graph is not
  part of the file; an element is addressed by the child indices that lead from it up to
  the root, own index first: \<open>[]\<close> is the root, \<open>i # q\<close> is child number \<open>i\<close> of \<open>q\<close>.

  An editor (\<open>GXElementEditor\<close>) is a JavaScript object with identity. Editors live in a
  store, addressed by \<open>edid\<close>; the fields of the record are the prototype's fields with
  their defaults (\<open>_flags = 0\<close>, everything else \<open>null\<close>).
\<close>

type_synonym elem = "nat list"
type_synonym edid = nat

record ('p, 't) editor =
  e_flags :: "32 word"
  e_element :: elem
  e_elementPreview :: "elem option"
  e_transform :: "'t option"
  e_parentEditor :: "edid option"
  e_editors :: "edid list option"
  e_partSelection :: "'p list option"

text \<open>
  What the editor asks of its collaborators is recorded in a log: a request for
  invalidation (with the editor as it is at the moment of the call, which is what the host
  reads the extent from) and a transformation handed to an element.
\<close>

datatype ('p, 't) event =
  RequestInvalidation edid "('p, 't) editor"
| ElementTransform elem 't

record ('p, 't) state =
  heap :: "edid \<Rightarrow> ('p, 't) editor"
  nextId :: edid
  slot :: "elem \<Rightarrow> edid option"
  log :: "('p, 't) event list"

datatype error =
  NotAttached
| UnknownReferenceEditor
| EditorAlreadyAppended
| UnknownEditor
| TypeError

subsection \<open>Numbers\<close>

text \<open>
  A JavaScript number is an IEEE 754 double: a finite value, an infinity or \<open>NaN\<close>. A finite
  value other than the negative zero is \<open>Num r\<close> with the real number \<open>r\<close> it stands for
  (\<open>Num 0\<close> is the positive zero). The result of an arithmetic operation is the exact result
  rounded to the nearest double, a tie to the one with the even significand
  (\<open>roundNumber\<close>). The doubles of a magnitude from \<open>2 ^ e\<close> up to \<open>2 ^ (e + 1)\<close> are the
  multiples of \<open>2 ^ (e - 52)\<close>, those below \<open>2 ^ (- 1022)\<close> the multiples of \<open>2 ^ (- 1074)\<close>
  (\<open>ulpExp\<close> is that exponent), and a rounded magnitude of \<open>2 ^ 1024\<close> or more is an
  infinity. \<open>Math.floor\<close> is exact. The sum of two finite numbers that is zero is the
  positive zero, unless both are the negative zero. The type has the values \<open>Num r\<close> also
  for the reals \<open>r\<close> that are no doubles; the operations return doubles, and what is proved
  below for every number holds of the doubles among them.
\<close>

datatype number = Num real | NegZero | PosInfinity | NegInfinity | NaN

definition roundTiesToEven :: "real \<Rightarrow> int" where
  "roundTiesToEven t =
     (let f = \<lfloor>t\<rfloor>; d = t - of_int f
      in if d < 1 / 2 then f else if 1 / 2 < d then f + 1 else if even f then f else f + 1)"

definition ulpExp :: "real \<Rightarrow> int" where
  "ulpExp x = max (- 1074) (bitlen \<lfloor>\<bar>x\<bar> * 2 ^ 1074\<rfloor> - 1127)"

definition roundNumber :: "real \<Rightarrow> number" where
  "roundNumber x =
     (let q = 2 powi (ulpExp x); y = of_int (roundTiesToEven (x / q)) * q
      in if 2 ^ 1024 \<le> y then PosInfinity
         else if y \<le> - (2 ^ 1024) then NegInfinity
         else if y = 0 \<and> x < 0 then NegZero
         else Num y)"

fun addNumber :: "number \<Rightarrow> number \<Rightarrow> number" where
  "addNumber NaN b = NaN"
| "addNumber a NaN = NaN"
| "addNumber PosInfinity NegInfinity = NaN"
| "addNumber NegInfinity PosInfinity = NaN"
| "addNumber PosInfinity b = PosInfinity"
| "addNumber a PosInfinity = PosInfinity"
| "addNumber NegInfinity b = NegInfinity"
| "addNumber a NegInfinity = NegInfinity"
| "addNumber NegZero b = b"
| "addNumber a NegZero = a"
| "addNumber (Num a) (Num b) = (if a + b = 0 then Num 0 else roundNumber (a + b))"

fun negNumber :: "number \<Rightarrow> number" where
  "negNumber (Num a) = (if a = 0 then NegZero else Num (- a))"
| "negNumber NegZero = Num 0"
| "negNumber PosInfinity = NegInfinity"
| "negNumber NegInfinity = PosInfinity"
| "negNumber NaN = NaN"

definition subNumber :: "number \<Rightarrow> number \<Rightarrow> number" where
  "subNumber a b = addNumber a (negNumber b)"

fun signBit :: "number \<Rightarrow> bool" where
  "signBit (Num a) = (a < 0)"
| "signBit NegZero = True"
| "signBit PosInfinity = False"
| "signBit NegInfinity = True"
| "signBit NaN = False"

fun finiteValue :: "number \<Rightarrow> real option" where
  "finiteValue (Num a) = Some a"
| "finiteValue NegZero = Some 0"
| "finiteValue n = None"

definition divNumber :: "number \<Rightarrow> number \<Rightarrow> number" where
  "divNumber a b =
     (if a = NaN \<or> b = NaN then NaN
      else
        case (finiteValue a, finiteValue b) of
          (None, None) \<Rightarrow> NaN
        | (None, Some y) \<Rightarrow> if signBit a = signBit b then PosInfinity else NegInfinity
        | (Some x, None) \<Rightarrow> if signBit a = signBit b then Num 0 else NegZero
        | (Some x, Some y) \<Rightarrow>
            if y = 0 then
              (if x = 0 then NaN
               else if signBit a = signBit b then PosInfinity else NegInfinity)
            else if x = 0 then (if signBit a = signBit b then Num 0 else NegZero)
            else roundNumber (x / y))"

fun Math_floor :: "number \<Rightarrow> number" where
  "Math_floor (Num a) = Num (of_int \<lfloor>a\<rfloor>)"
| "Math_floor n = n"

subsection \<open>Constants\<close>

definition annotationSizeRegular :: number where
  "annotationSizeRegular = Num 6"

definition annotationSizeSmall :: number where
  "annotationSizeSmall = Num 4"

definition Flag_Selected :: "32 word" where
  "Flag_Selected = push_bit 0 1"

definition Flag_Highlighted :: "32 word" where
  "Flag_Highlighted = push_bit 1 1"

definition Flag_Focused :: "32 word" where
  "Flag_Focused = push_bit 2 1"

definition Flag_Detail :: "32 word" where
  "Flag_Detail = push_bit 3 1"

definition Flag_Outline :: "32 word" where
  "Flag_Outline = push_bit 4 1"

subsection \<open>Flags and invalidation\<close>

text \<open>
  \<open>requestInvalidation\<close> forwards to the host editor of the scene
  (\<open>GXEditor.getEditor(this._element.getScene()).requestInvalidation(this, args)\<close>);
  every call here passes no arguments.
\<close>

definition requestInvalidation :: "edid \<Rightarrow> ('p, 't) state \<Rightarrow> ('p, 't) state" where
  "requestInvalidation this s = s\<lparr>log := log s @ [RequestInvalidation this (heap s this)]\<rparr>"

definition hasFlag :: "('p, 't) state \<Rightarrow> edid \<Rightarrow> 32 word \<Rightarrow> bool" where
  "hasFlag s this flag = (e_flags (heap s this) AND flag \<noteq> 0)"

text \<open>An assignment to fields of the object \<open>this\<close>.\<close>

definition modify ::
  "edid \<Rightarrow> (('p, 't) editor \<Rightarrow> ('p, 't) editor) \<Rightarrow> ('p, 't) state \<Rightarrow> ('p, 't) state" where
  "modify this f s = s\<lparr>heap := (heap s)(this := f (heap s this))\<rparr>"

definition setFlag :: "edid \<Rightarrow> 32 word \<Rightarrow> ('p, 't) state \<Rightarrow> ('p, 't) state" where
  "setFlag this flag s =
     (if e_flags (heap s this) AND flag = 0 then
        let s1 = requestInvalidation this s;
            s2 = modify this (\<lambda>e. e\<lparr>e_flags := e_flags e OR flag\<rparr>) s1
        in requestInvalidation this s2
      else s)"

definition removeFlag :: "edid \<Rightarrow> 32 word \<Rightarrow> ('p, 't) state \<Rightarrow> ('p, 't) state" where
  "removeFlag this flag s =
     (if e_flags (heap s this) AND flag \<noteq> 0 then
        let s1 = requestInvalidation this s;
            s2 = modify this (\<lambda>e. e\<lparr>e_flags := e_flags e AND NOT flag\<rparr>) s1
        in requestInvalidation this s2
      else s)"

subsection \<open>Staging and applying a transformation\<close>

text \<open>
  \<open>GTransform\<close> is not part of the file: the type of transformations is a parameter
  \<open>'t\<close>, and \<open>GTransform.equals\<close> and \<open>isIdentity\<close> are parameters of the functions that call
  them.
\<close>

definition transform ::
  "('t option \<Rightarrow> 't option \<Rightarrow> bool) \<Rightarrow> edid \<Rightarrow> 't \<Rightarrow> ('p, 't) state \<Rightarrow> ('p, 't) state" where
  "transform GTransform_equals this t s =
     (if \<not> GTransform_equals (e_transform (heap s this)) (Some t) then
        let s1 = (if \<not> hasFlag s this Flag_Outline then setFlag this Flag_Outline s
                  else requestInvalidation this s);
            s2 = modify this (\<lambda>e. e\<lparr>e_transform := Some t\<rparr>) s1
        in requestInvalidation this s2
      else s)"

definition resetTransform :: "('t \<Rightarrow> bool) \<Rightarrow> edid \<Rightarrow> ('p, 't) state \<Rightarrow> ('p, 't) state" where
  "resetTransform isIdentity this s =
     (let s1 = (case e_transform (heap s this) of
                  None \<Rightarrow> s
                | Some t \<Rightarrow> if \<not> isIdentity t then requestInvalidation this s else s);
          s2 = modify this (\<lambda>e. e\<lparr>e_transform := None\<rparr>) s1
      in removeFlag this Flag_Outline s2)"

text \<open>
  \<open>this._transform.isIdentity()\<close> on a \<open>null\<close> transform is a \<open>TypeError\<close> of the language.
  \<open>element.transform(t)\<close> is a call on the scene element; it is recorded in the log.
\<close>

definition applyTransform ::
  "('t \<Rightarrow> bool) \<Rightarrow> edid \<Rightarrow> elem \<Rightarrow> ('p, 't) state \<Rightarrow> error + ('p, 't) state" where
  "applyTransform isIdentity this element s =
     (case e_transform (heap s this) of
        None \<Rightarrow> Inl TypeError
      | Some t \<Rightarrow>
          let s1 = (if \<not> isIdentity t then s\<lparr>log := log s @ [ElementTransform element t]\<rparr>
                    else s)
          in Inr (resetTransform isIdentity this s1))"

text \<open>The constructor: a new object with the prototype's defaults and its element.\<close>

definition newEditor :: "elem \<Rightarrow> ('p, 't) editor" where
  "newEditor element =
     \<lparr>e_flags = 0, e_element = element, e_elementPreview = None, e_transform = None,
      e_parentEditor = None, e_editors = None, e_partSelection = None\<rparr>"

subsection \<open>Part selection\<close>

definition priv_partIdAreEqual :: "'p \<Rightarrow> 'p \<Rightarrow> bool" where
  "priv_partIdAreEqual a b = (a = b)"

fun indexFrom :: "'p list \<Rightarrow> 'p \<Rightarrow> int \<Rightarrow> int" where
  "indexFrom [] partId i = - 1"
| "indexFrom (a # array) partId i =
     (if priv_partIdAreEqual a partId then i else indexFrom array partId (i + 1))"

definition priv_indexOfPartId :: "'p list option \<Rightarrow> 'p \<Rightarrow> int" where
  "priv_indexOfPartId array partId =
     (case array of
        None \<Rightarrow> - 1
      | Some xs \<Rightarrow> if length xs > 0 then indexFrom xs partId 0 else - 1)"

definition isPartSelected :: "('p, 't) state \<Rightarrow> edid \<Rightarrow> 'p \<Rightarrow> bool" where
  "isPartSelected s this partId = (priv_indexOfPartId (e_partSelection (heap s this)) partId \<ge> 0)"

definition getPartSelection :: "('p, 't) state \<Rightarrow> edid \<Rightarrow> 'p list option" where
  "getPartSelection s this = e_partSelection (heap s this)"

definition priv_updatePartSelection ::
  "edid \<Rightarrow> 'p list option \<Rightarrow> ('p, 't) state \<Rightarrow> ('p, 't) state" where
  "priv_updatePartSelection this selection s =
     (let s1 = requestInvalidation this s;
          s2 = modify this (\<lambda>e. e\<lparr>e_partSelection := selection\<rparr>) s1
      in requestInvalidation this s2)"

text \<open>
  \<open>gUtil.equals\<close> is not part of the file; it is the parameter \<open>gUtil_equals\<close>. The argument
  \<open>selection\<close> may be \<open>null\<close>. An empty array is truthy in JavaScript, so
  \<open>!this._partSelection\<close> holds for \<open>null\<close> only: the first branch is taken when \<open>toggle\<close> is
  false or the current selection is \<open>null\<close>. \<open>toggledSelection\<close> is the two loops of the
  toggle branch.
\<close>

definition toggledSelection :: "'p list \<Rightarrow> 'p list \<Rightarrow> 'p list" where
  "toggledSelection current selection =
     filter (\<lambda>p. priv_indexOfPartId (Some selection) p < 0) current @
     filter (\<lambda>p. priv_indexOfPartId (Some current) p < 0) selection"

definition updatePartSelection ::
  "('p list option \<Rightarrow> 'p list option \<Rightarrow> bool) \<Rightarrow> edid \<Rightarrow> bool \<Rightarrow> 'p list option \<Rightarrow>
   ('p, 't) state \<Rightarrow> ('p, 't) state" where
  "updatePartSelection gUtil_equals this toggle selection s =
     (if hasFlag s this Flag_Selected then
        let newSelection =
              (case (if toggle then e_partSelection (heap s this) else None) of
                 None \<Rightarrow>
                   (case selection of
                      None \<Rightarrow> None
                    | Some xs \<Rightarrow> if length xs > 0 then Some xs else None)
               | Some current \<Rightarrow>
                   (case selection of
                      None \<Rightarrow> None
                    | Some xs \<Rightarrow>
                        let new = toggledSelection current xs
                        in if length new = 0 then None else Some new))
        in if \<not> gUtil_equals newSelection (e_partSelection (heap s this))
           then priv_updatePartSelection this newSelection s
           else s
      else s)"

text \<open>
  Modelled from the spec: \<open>gUtil.equals\<close>, which is not among the sources. The spec says the
  selection is replaced only if the new one differs from the current one by value,
  order-insensitive.
\<close>

definition equalsByValue :: "'p list option \<Rightarrow> 'p list option \<Rightarrow> bool" where
  "equalsByValue a b =
     (case a of
        None \<Rightarrow> b = None
      | Some xs \<Rightarrow> (case b of None \<Rightarrow> False | Some ys \<Rightarrow> mset xs = mset ys))"

subsection \<open>The bounding box of an annotation\<close>

text \<open>
  \<open>GRect\<close> is built by its constructor \<open>new GRect(x, y, width, height)\<close>, which keeps the
  four numbers; a point is the pair of \<open>getX()\<close> and \<open>getY()\<close>; \<open>transform.mapPoint\<close> is a
  parameter. The function has no paint context among its arguments and returns the
  rectangle only. \<open>mirror\<close> is a transformation for the examples: it swaps the two axes.
\<close>

record GRect =
  r_x :: number
  r_y :: number
  r_width :: number
  r_height :: number

type_synonym GPoint = "number \<times> number"

definition priv_getAnnotationBBox ::
  "('t \<Rightarrow> GPoint \<Rightarrow> GPoint) \<Rightarrow> 't option \<Rightarrow> GPoint \<Rightarrow> bool \<Rightarrow> GRect" where
  "priv_getAnnotationBBox mapPoint viewTransform center small =
     (let center1 = (case viewTransform of None \<Rightarrow> center | Some t \<Rightarrow> mapPoint t center);
          size = (if small then annotationSizeSmall else annotationSizeRegular);
          cx = addNumber (Math_floor (fst center1)) (Num 0.5);
          cy = addNumber (Math_floor (snd center1)) (Num 0.5)
      in \<lparr>r_x = subNumber (subNumber cx (divNumber size (Num 2))) (Num 1),
          r_y = subNumber (subNumber cy (divNumber size (Num 2))) (Num 1),
          r_width = addNumber size (Num 2), r_height = addNumber size (Num 2)\<rparr>)"

definition mirror :: "bool \<Rightarrow> GPoint \<Rightarrow> GPoint" where
  "mirror t p = (if t then (snd p, fst p) else p)"

subsection \<open>Observations used in the statements\<close>

text \<open>The calls of \<open>element.transform\<close> recorded in a log, in order.\<close>

definition elementTransforms :: "('p, 't) event list \<Rightarrow> (elem \<times> 't) list" where
  "elementTransforms evs =
     concat (map (\<lambda>ev. case ev of ElementTransform el t \<Rightarrow> [(el, t)]
                              | RequestInvalidation _ _ \<Rightarrow> []) evs)"

text \<open>The part selection as the set of selected ids; \<open>null\<close> is the empty selection.\<close>

definition selectionSet :: "'p list option \<Rightarrow> 'p set" where
  "selectionSet sel = (case sel of None \<Rightarrow> {} | Some xs \<Rightarrow> set xs)"

text \<open>A store whose editors all carry the given flags, part selection and staged transform.\<close>

definition exampleState :: "32 word \<Rightarrow> int list option \<Rightarrow> nat option \<Rightarrow> (int, nat) state" where
  "exampleState fl sel tr =
     \<lparr>heap = (\<lambda>_. (newEditor [])\<lparr>e_flags := fl, e_transform := tr, e_partSelection := sel\<rparr>),
      nextId = 1, slot = (\<lambda>_. None), log = []\<rparr>"

text \<open>What one call in toggle mode computes from the current selection, before the comparison.\<close>

definition computedSelection :: "'p list option \<Rightarrow> 'p list \<Rightarrow> 'p list option" where
  "computedSelection cur S =
     (case cur of
        None \<Rightarrow> (if S = [] then None else Some S)
      | Some c \<Rightarrow> (if toggledSelection c S = [] then None else Some (toggledSelection c S)))"

subsection \<open>The scene graph and the registry\<close>

text \<open>
  Modelled from the spec: the scene graph (\<open>GXElement\<close>), which the file only reads through
  \<open>isAttached\<close>, \<open>getParent\<close>, \<open>getNext\<close> and \<open>GObject.getTypeId\<close>. The live scene is a
  finite tree of nodes with a type id each; an element is attached when its address leads
  to a node of the tree. The parent of \<open>i # q\<close> is \<open>q\<close>, its next sibling is \<open>Suc i # q\<close> when
  that is an element of the tree.
\<close>

datatype node = Node (n_typeId: nat) (n_children: "node list")

fun descend :: "node \<Rightarrow> nat list \<Rightarrow> node option" where
  "descend n [] = Some n"
| "descend n (i # p) =
     (if i < length (n_children n) then descend (n_children n ! i) p else None)"

definition nodeAt :: "node \<Rightarrow> elem \<Rightarrow> node option" where
  "nodeAt scene element = descend scene (rev element)"

definition isAttached :: "node \<Rightarrow> elem \<Rightarrow> bool" where
  "isAttached scene element = (nodeAt scene element \<noteq> None)"

definition getParent :: "elem \<Rightarrow> elem option" where
  "getParent element = (case element of [] \<Rightarrow> None | i # q \<Rightarrow> Some q)"

definition getNext :: "node \<Rightarrow> elem \<Rightarrow> elem option" where
  "getNext scene element =
     (case element of
        [] \<Rightarrow> None
      | i # q \<Rightarrow> if isAttached scene (Suc i # q) then Some (Suc i # q) else None)"

definition getTypeId :: "node \<Rightarrow> elem \<Rightarrow> nat option" where
  "getTypeId scene element = map_option n_typeId (nodeAt scene element)"

text \<open>
  \<open>GXElementEditor._Editors\<close> maps a type id to an editor class. Every class is modelled by
  the base class: its constructor stores the element and nothing else.
\<close>

type_synonym editorClass = nat
type_synonym registry = "nat \<rightharpoonup> editorClass"

definition exports :: "editorClass \<Rightarrow> nat \<Rightarrow> registry \<Rightarrow> registry" where
  "exports editorClass typeId Editors = Editors(typeId \<mapsto> editorClass)"

definition editorClassOf :: "registry \<Rightarrow> node \<Rightarrow> elem \<Rightarrow> editorClass option" where
  "editorClassOf Editors scene element =
     (case getTypeId scene element of None \<Rightarrow> None | Some t \<Rightarrow> Editors t)"

subsection \<open>Attaching editors to elements\<close>

definition getEditor :: "('p, 't) state \<Rightarrow> elem \<Rightarrow> edid option" where
  "getEditor s element = slot s element"

definition createEditor ::
  "registry \<Rightarrow> node \<Rightarrow> elem \<Rightarrow> ('p, 't) state \<Rightarrow> edid option \<times> ('p, 't) state" where
  "createEditor Editors scene element s =
     (case editorClassOf Editors scene element of
        Some editorClass \<Rightarrow>
          (Some (nextId s),
           s\<lparr>heap := (heap s)(nextId s := newEditor element), nextId := Suc (nextId s)\<rparr>)
      | None \<Rightarrow> (None, s))"

definition getParentEditor :: "('p, 't) state \<Rightarrow> edid \<Rightarrow> edid option" where
  "getParentEditor s this = e_parentEditor (heap s this)"

definition getEditors :: "('p, 't) state \<Rightarrow> edid \<Rightarrow> edid list option" where
  "getEditors s this = e_editors (heap s this)"

text \<open>\<open>Array.prototype.indexOf\<close> on an array of object references: the first index, or \<open>-1\<close>.\<close>

fun indexOfFrom :: "'a list \<Rightarrow> 'a \<Rightarrow> int \<Rightarrow> int" where
  "indexOfFrom [] x i = - 1"
| "indexOfFrom (a # array) x i = (if a = x then i else indexOfFrom array x (i + 1))"

definition indexOf :: "'a list \<Rightarrow> 'a \<Rightarrow> int" where
  "indexOf array x = indexOfFrom array x 0"

text \<open>
  \<open>insertEditor\<close>: with a reference editor the index is looked up in \<open>this._editors\<close>, and
  \<open>this._editors.indexOf\<close> on \<open>null\<close> is a \<open>TypeError\<close>. \<open>splice(index, 0, editor)\<close> puts the
  editor in front of the entry at \<open>index\<close>.
\<close>

definition insertEditor ::
  "edid \<Rightarrow> edid \<Rightarrow> edid option \<Rightarrow> ('p, 't) state \<Rightarrow> error + ('p, 't) state" where
  "insertEditor this editor referenceEditor s =
     (case (case referenceEditor of
              None \<Rightarrow>
                Inr (case e_editors (heap s this) of None \<Rightarrow> 0 | Some es \<Rightarrow> int (length es))
            | Some r \<Rightarrow>
                (case e_editors (heap s this) of
                   None \<Rightarrow> Inl TypeError
                 | Some es \<Rightarrow>
                     if indexOf es r < 0 then Inl UnknownReferenceEditor
                     else Inr (indexOf es r))) of
        Inl err \<Rightarrow> Inl err
      | Inr index \<Rightarrow>
          if e_parentEditor (heap s editor) \<noteq> None then Inl EditorAlreadyAppended
          else
            let es = (case e_editors (heap s this) of None \<Rightarrow> [] | Some es \<Rightarrow> es);
                es' = (if index \<ge> int (length es) then es @ [editor]
                       else take (nat index) es @ editor # drop (nat index) es);
                s1 = modify this (\<lambda>e. e\<lparr>e_editors := Some es'\<rparr>) s
            in Inr (modify editor (\<lambda>e. e\<lparr>e_parentEditor := Some this\<rparr>) s1))"

definition appendEditor :: "edid \<Rightarrow> edid \<Rightarrow> ('p, 't) state \<Rightarrow> error + ('p, 't) state" where
  "appendEditor this editor s = insertEditor this editor None s"

definition removeEditor :: "edid \<Rightarrow> edid \<Rightarrow> ('p, 't) state \<Rightarrow> error + ('p, 't) state" where
  "removeEditor this editor s =
     (case e_editors (heap s this) of
        None \<Rightarrow> Inl TypeError
      | Some es \<Rightarrow>
          if indexOf es editor < 0 then Inl UnknownEditor
          else
            let index = nat (indexOf es editor);
                s1 = modify this (\<lambda>e. e\<lparr>e_editors := Some (take index es @ drop (Suc index) es)\<rparr>) s
            in Inr (modify editor (\<lambda>e. e\<lparr>e_parentEditor := None\<rparr>) s1))"

text \<open>
  The inner loop of \<open>openEditor\<close>: the editor of the first next sibling that has one.
  The argument is the sibling the loop stands at (\<open>nextNode\<close>).
\<close>

function findReference :: "node \<Rightarrow> ('p, 't) state \<Rightarrow> elem option \<Rightarrow> edid option" where
  "findReference scene s None = None"
| "findReference scene s (Some nextNode) =
     (case getEditor s nextNode of
        Some nextEditor \<Rightarrow> Some nextEditor
      | None \<Rightarrow> findReference scene s (getNext scene nextNode))"
  by pat_completeness auto

text \<open>The number of children of an element of the scene.\<close>

definition kids :: "node \<Rightarrow> elem \<Rightarrow> nat" where
  "kids scene q = (case nodeAt scene q of None \<Rightarrow> 0 | Some m \<Rightarrow> length (n_children m))"

lemma descend_snoc:
  "descend n (p @ [i]) =
     (case descend n p of
        None \<Rightarrow> None
      | Some m \<Rightarrow> if i < length (n_children m) then Some (n_children m ! i) else None)"
  by (induction p arbitrary: n) auto

lemma nodeAt_Cons:
  "nodeAt scene (i # q) =
     (case nodeAt scene q of
        None \<Rightarrow> None
      | Some m \<Rightarrow> if i < length (n_children m) then Some (n_children m ! i) else None)"
  by (simp add: nodeAt_def descend_snoc)

lemma isAttached_Cons: "isAttached scene (i # q) = (i < kids scene q)"
  by (auto simp: isAttached_def nodeAt_Cons kids_def split: option.splits)

termination findReference
proof (relation "measure (\<lambda>(scene, s, n). case n of None \<Rightarrow> 0
                   | Some x \<Rightarrow> (case x of [] \<Rightarrow> 1 | i # q \<Rightarrow> Suc (kids scene q - i)))")
  show "wf (measure (\<lambda>(scene, s, n). case n of None \<Rightarrow> 0
              | Some x \<Rightarrow> (case x of [] \<Rightarrow> 1 | i # q \<Rightarrow> Suc (kids scene q - i))))"
    by simp
next
  fix scene :: node and s :: "('p, 't) state" and nextNode
  assume "getEditor s nextNode = None"
  show "((scene, s, getNext scene nextNode), scene, s, Some nextNode)
       \<in> measure (\<lambda>(scene, s, n). case n of None \<Rightarrow> 0
             | Some x \<Rightarrow> (case x of [] \<Rightarrow> 1 | i # q \<Rightarrow> Suc (kids scene q - i)))"
    by (cases nextNode) (auto simp: getNext_def isAttached_Cons)
qed

text \<open>
  \<open>openEditor\<close> and the loop over the ancestors in it. The loop stands at \<open>parentNode\<close>
  (\<open>None\<close> when the chain is exhausted); \<open>editor._attach()\<close> does nothing in the base class.
\<close>

function openEditor ::
    "registry \<Rightarrow> node \<Rightarrow> ('p, 't) state \<Rightarrow> elem \<Rightarrow> error + (edid option \<times> ('p, 't) state)"
  and ancestorLoop ::
    "registry \<Rightarrow> node \<Rightarrow> ('p, 't) state \<Rightarrow> elem \<Rightarrow> edid \<Rightarrow> elem option \<Rightarrow> error + ('p, 't) state"
where
  "openEditor Editors scene s element =
     (if \<not> isAttached scene element then Inl NotAttached
      else
        case getEditor s element of
          Some e \<Rightarrow> Inr (Some e, s)
        | None \<Rightarrow>
            (case createEditor Editors scene element s of
               (None, s0) \<Rightarrow> Inr (None, s0)
             | (Some editor, s1) \<Rightarrow>
                 (case ancestorLoop Editors scene s1 element editor (getParent element) of
                    Inl err \<Rightarrow> Inl err
                  | Inr s2 \<Rightarrow> Inr (Some editor, s2\<lparr>slot := (slot s2)(element \<mapsto> editor)\<rparr>))))"
| "ancestorLoop Editors scene s element editor None = Inr s"
| "ancestorLoop Editors scene s element editor (Some parentNode) =
     (case (case getEditor s parentNode of
              Some parentEditor \<Rightarrow> Inr (Some parentEditor, s)
            | None \<Rightarrow> openEditor Editors scene s parentNode) of
        Inl err \<Rightarrow> Inl err
      | Inr (Some parentEditor, s1) \<Rightarrow>
          insertEditor parentEditor editor (findReference scene s1 (getNext scene element)) s1
      | Inr (None, s1) \<Rightarrow> ancestorLoop Editors scene s1 element editor (getParent parentNode))"
  by pat_completeness auto
termination
  by (relation "measure (\<lambda>a. case a of
          Inl (Editors, scene, s, element) \<Rightarrow> 2 * length element + 1
        | Inr (Editors, scene, s, element, editor, p) \<Rightarrow>
            (case p of None \<Rightarrow> 0 | Some q \<Rightarrow> 2 * length q + 2))")
    (auto simp: getParent_def split: list.splits)

text \<open>
  \<open>GObject.getTypeId(element)\<close> does not ask whether the element is attached. The type id
  of an element of the scene is the one of its node; \<open>detached\<close> gives the type ids of the
  elements that are not in the scene.
\<close>

definition typeIdOf :: "node \<Rightarrow> (elem \<Rightarrow> nat) \<Rightarrow> elem \<Rightarrow> nat" where
  "typeIdOf scene detached element =
     (case getTypeId scene element of Some t \<Rightarrow> t | None \<Rightarrow> detached element)"

text \<open>
  \<open>closeEditor\<close> follows the editors' own links, which may form a cycle in a store that is
  not a tree; the recursion is bounded by fuel, and \<open>None\<close> means that the fuel ran out.
  The loop over the sub editors reads \<open>editors.length\<close> and \<open>editors[i]\<close> from the array that
  \<open>removeEditor\<close> splices while the loop runs: the array is \<open>elementEditor._editors\<close> itself,
  read from the store at every turn. \<open>_detach()\<close> does nothing in the base class.
\<close>

fun closeEditor ::
    "nat \<Rightarrow> registry \<Rightarrow> node \<Rightarrow> (elem \<Rightarrow> nat) \<Rightarrow> ('p, 't) state \<Rightarrow> elem \<Rightarrow>
       (error + ('p, 't) state) option"
  and closeLoop ::
    "nat \<Rightarrow> registry \<Rightarrow> node \<Rightarrow> (elem \<Rightarrow> nat) \<Rightarrow> ('p, 't) state \<Rightarrow> edid \<Rightarrow> nat \<Rightarrow>
       (error + ('p, 't) state) option"
where
  "closeEditor 0 Editors scene detached s element = None"
| "closeEditor (Suc fuel) Editors scene detached s element =
     (case getEditor s element of
        None \<Rightarrow> Some (Inr s)
      | Some elementEditor \<Rightarrow>
          (case Editors (typeIdOf scene detached element) of
             None \<Rightarrow> Some (Inr s)
           | Some editorClass \<Rightarrow>
               (case (case getEditors s elementEditor of
                        None \<Rightarrow> Some (Inr s)
                      | Some editors \<Rightarrow> closeLoop fuel Editors scene detached s elementEditor 0) of
                  None \<Rightarrow> None
                | Some (Inl err) \<Rightarrow> Some (Inl err)
                | Some (Inr s1) \<Rightarrow>
                    (case (case getParentEditor s1 elementEditor of
                             None \<Rightarrow> Inr s1
                           | Some parentEditor \<Rightarrow> removeEditor parentEditor elementEditor s1) of
                       Inl err \<Rightarrow> Some (Inl err)
                     | Inr s2 \<Rightarrow> Some (Inr (s2\<lparr>slot := (slot s2)(element := None)\<rparr>))))))"
| "closeLoop 0 Editors scene detached s elementEditor i = None"
| "closeLoop (Suc fuel) Editors scene detached s elementEditor i =
     (case getEditors s elementEditor of
        None \<Rightarrow> Some (Inr s)
      | Some editors \<Rightarrow>
          if i < length editors then
            (case closeEditor fuel Editors scene detached s (e_element (heap s (editors ! i))) of
               None \<Rightarrow> None
             | Some (Inl err) \<Rightarrow> Some (Inl err)
             | Some (Inr s1) \<Rightarrow> closeLoop fuel Editors scene detached s1 elementEditor (Suc i))
          else Some (Inr s))"

subsection \<open>Hit testing\<close>

text \<open>
  \<open>getPartInfoAt\<close> only reads the tree of editors under \<open>this\<close>: an editor with its array of
  sub editors (\<open>null\<close> or an array). What the walk asks of an editor is dispatched on the
  editor's class or given by the caller, and is a parameter here: the acceptor (optional),
  \<open>getBBox(transform)\<close>, \<open>isEmpty\<close> and \<open>containsPoint(location)\<close> of the box, and
  \<open>_getPartInfoAt(location, transform)\<close>. Beside the result the function returns the probes
  it made, in order.
\<close>

datatype 'a etree = Editor (et_this: 'a) (et_editors: "'a etree list option")

datatype 'a probe = AcceptorCalled 'a | BBoxTested 'a | PartLookedUp 'a

record ('a, 'r, 'b) hitEnv =
  h_acceptor :: "('a \<Rightarrow> bool) option"
  h_getBBox :: "'a \<Rightarrow> 'b option"
  h_isEmpty :: "'b \<Rightarrow> bool"
  h_containsPoint :: "'b \<Rightarrow> bool"
  h_getPartInfoAt :: "'a \<Rightarrow> 'r option"

text \<open>A loop that returns at the first result that is not \<open>null\<close>.\<close>

fun firstHit :: "('x \<Rightarrow> 'r option \<times> 'e list) \<Rightarrow> 'x list \<Rightarrow> 'r option \<times> 'e list" where
  "firstHit f [] = (None, [])"
| "firstHit f (x # xs) =
     (case f x of
        (Some result, tr) \<Rightarrow> (Some result, tr)
      | (None, tr) \<Rightarrow> (case firstHit f xs of (r, tr') \<Rightarrow> (r, tr @ tr')))"

lemma firstHit_cong [fundef_cong]:
  "xs = ys \<Longrightarrow> (\<And>x. x \<in> set ys \<Longrightarrow> f x = g x) \<Longrightarrow> firstHit f xs = firstHit g ys"
  by (induction ys arbitrary: xs) (auto split: prod.splits option.splits)

text \<open>The part of \<open>getPartInfoAt\<close> after the loop: the acceptor and the editor's own box.\<close>

definition selfTest :: "('a, 'r, 'b) hitEnv \<Rightarrow> 'a \<Rightarrow> 'r option \<times> 'a probe list" where
  "selfTest env this =
     (if (case h_acceptor env of None \<Rightarrow> False | Some acceptor \<Rightarrow> \<not> acceptor this)
      then (None, [AcceptorCalled this])
      else
        let asked = (case h_acceptor env of None \<Rightarrow> [] | Some acceptor \<Rightarrow> [AcceptorCalled this])
        in case h_getBBox env this of
             None \<Rightarrow> (None, asked @ [BBoxTested this])
           | Some bbox \<Rightarrow>
               if \<not> h_isEmpty env bbox \<and> h_containsPoint env bbox
               then (h_getPartInfoAt env this, asked @ [BBoxTested this, PartLookedUp this])
               else (None, asked @ [BBoxTested this]))"

fun getPartInfoAt :: "('a, 'r, 'b) hitEnv \<Rightarrow> 'a etree \<Rightarrow> 'r option \<times> 'a probe list" where
  "getPartInfoAt env (Editor this editors) =
     (case firstHit (getPartInfoAt env) (rev (case editors of None \<Rightarrow> [] | Some es \<Rightarrow> es)) of
        (Some result, tr) \<Rightarrow> (Some result, tr)
      | (None, tr) \<Rightarrow> (case selfTest env this of (r, tr') \<Rightarrow> (r, tr @ tr')))"

text \<open>The sub editors of an editor as a list: \<open>null\<close> has none.\<close>

definition childList :: "('p, 't) state \<Rightarrow> edid \<Rightarrow> edid list" where
  "childList s this = (case e_editors (heap s this) of None \<Rightarrow> [] | Some es \<Rightarrow> es)"

text \<open>A store with an editor \<open>10\<close> that has the sub editors \<open>11\<close> and \<open>12\<close>, and a loose editor \<open>13\<close>.\<close>

definition exampleTree :: "(int, nat) state" where
  "exampleTree =
     \<lparr>heap = (\<lambda>i. if i = 10 then (newEditor [])\<lparr>e_editors := Some [11, 12]\<rparr>
                  else if i = 11 then (newEditor [0])\<lparr>e_parentEditor := Some 10\<rparr>
                  else if i = 12 then (newEditor [1])\<lparr>e_parentEditor := Some 10\<rparr>
                  else newEditor [2]),
      nextId = 14,
      slot = (\<lambda>x. if x = [] then Some 10 else if x = [0] then Some 11
                   else if x = [1] then Some 12 else None),
      log = []\<rparr>"

text \<open>
  A scene with a root of type \<open>0\<close> and two children \<open>A = [0]\<close> and \<open>B = [1]\<close> of type \<open>1\<close>, a
  registry with an editor class for both types, and a store without any editor.
\<close>

definition exampleScene :: node where
  "exampleScene = Node 0 [Node 1 [], Node 1 []]"

definition exampleRegistry :: registry where
  "exampleRegistry = exports 7 1 (exports 7 0 Map.empty)"

definition emptyState :: "(int, nat) state" where
  "emptyState = \<lparr>heap = (\<lambda>_. newEditor []), nextId = 0, slot = (\<lambda>_. None), log = []\<rparr>"

text \<open>The store after \<open>openEditor(B)\<close> on the empty store.\<close>

definition afterOpenB :: "(int, nat) state" where
  "afterOpenB = (case openEditor exampleRegistry exampleScene emptyState [1] of Inr (r, s) \<Rightarrow> s | Inl _ \<Rightarrow> emptyState)"

text \<open>The sub editors of a node of the tree, and the editors of a tree.\<close>

definition subEditors :: "'a etree \<Rightarrow> 'a etree list" where
  "subEditors t = (case et_editors t of None \<Rightarrow> [] | Some es \<Rightarrow> es)"

fun nodes :: "'a etree \<Rightarrow> 'a list" where
  "nodes (Editor a es) = a # concat (map nodes (case es of None \<Rightarrow> [] | Some xs \<Rightarrow> xs))"

text \<open>
  A tree for the hit test: the editor \<open>0\<close> has no box; its sub editors \<open>1\<close>, \<open>2\<close> and \<open>3\<close> all
  contain the location and have a part there, and the acceptor turns \<open>3\<close> down.
\<close>

definition exampleEnv :: "(nat, nat, nat) hitEnv" where
  "exampleEnv =
     \<lparr>h_acceptor = Some (\<lambda>a. a \<noteq> 3), h_getBBox = (\<lambda>a. if a = 0 then None else Some a),
      h_isEmpty = (\<lambda>b. False), h_containsPoint = (\<lambda>b. True),
      h_getPartInfoAt = (\<lambda>a. Some (10 * a))\<rparr>"

definition exampleEditors :: "nat etree" where
  "exampleEditors = Editor 0 (Some [Editor 1 None, Editor 2 None, Editor 3 None])"

subsection \<open>Editors in step with the scene\<close>

text \<open>
  An element has a registered editor kind when the registry has a class for its type id.
  \<open>ancestor q x\<close>: the element \<open>q\<close> is reached from \<open>x\<close> by \<open>getParent\<close>, in one step or more.
  \<open>nearestEditor s x\<close> is the editor of the first ancestor of \<open>x\<close> that has one.
\<close>

definition registered :: "registry \<Rightarrow> node \<Rightarrow> elem \<Rightarrow> bool" where
  "registered Editors scene x = (editorClassOf Editors scene x \<noteq> None)"

fun ancestor :: "elem \<Rightarrow> elem \<Rightarrow> bool" where
  "ancestor q [] = False"
| "ancestor q (i # p) = (q = p \<or> ancestor q p)"

fun nearestEditor :: "('p, 't) state \<Rightarrow> elem \<Rightarrow> edid option" where
  "nearestEditor s [] = None"
| "nearestEditor s (i # q) = (case slot s q of Some e \<Rightarrow> Some e | None \<Rightarrow> nearestEditor s q)"

text \<open>
  The sub editors of \<open>pe\<close> that belong to children of the element \<open>p\<close>, in the order of
  the array, and the child indices (the document order) of their elements.
\<close>

definition isChildOf :: "elem \<Rightarrow> elem \<Rightarrow> bool" where
  "isChildOf p x = (case x of [] \<Rightarrow> False | i # q \<Rightarrow> q = p)"

definition childEditors :: "('p, 't) state \<Rightarrow> elem \<Rightarrow> edid \<Rightarrow> edid list" where
  "childEditors s p pe = filter (\<lambda>e. isChildOf p (e_element (heap s e))) (childList s pe)"

definition childIndices :: "('p, 't) state \<Rightarrow> elem \<Rightarrow> edid \<Rightarrow> nat list" where
  "childIndices s p pe = map (\<lambda>e. hd (e_element (heap s e))) (childEditors s p pe)"

text \<open>
  A store is in step with the scene when
  \<^item> \<open>linked\<close>: among the allocated editors the arrays of sub editors and the parent links say
    the same, and no array holds an editor twice;
  \<^item> \<open>slotted\<close>: the editor in the slot of an element is allocated and is the editor of
    that element, which is attached; an editor in an array of sub editors is the one in the
    slot of its element;
  \<^item> \<open>mirrored\<close>: the parent editor of the editor of an element is the editor of the
    nearest ancestor that has one, and the ancestors with a registered kind of an element
    with an editor have editors;
  \<^item> \<open>ordered\<close>: in the array of sub editors of the editor of an element, the editors of the
    children of that element stand in document order.
  The store without any editor is in step with every scene.
\<close>

definition linked :: "('p, 't) state \<Rightarrow> bool" where
  "linked s =
     ((\<forall>p c. p < nextId s \<and> c \<in> set (childList s p) \<longrightarrow>
          c < nextId s \<and> e_parentEditor (heap s c) = Some p) \<and>
      (\<forall>c p. c < nextId s \<and> e_parentEditor (heap s c) = Some p \<longrightarrow>
          p < nextId s \<and> c \<in> set (childList s p)) \<and>
      (\<forall>p. p < nextId s \<longrightarrow> distinct (childList s p)))"

definition slotted :: "node \<Rightarrow> ('p, 't) state \<Rightarrow> bool" where
  "slotted scene s =
     ((\<forall>x e. slot s x = Some e \<longrightarrow>
          e < nextId s \<and> e_element (heap s e) = x \<and> isAttached scene x) \<and>
      (\<forall>p c. p < nextId s \<and> c \<in> set (childList s p) \<longrightarrow>
          slot s (e_element (heap s c)) = Some c))"

definition mirrored :: "registry \<Rightarrow> node \<Rightarrow> ('p, 't) state \<Rightarrow> bool" where
  "mirrored Editors scene s =
     ((\<forall>x e. slot s x = Some e \<longrightarrow> e_parentEditor (heap s e) = nearestEditor s x) \<and>
      (\<forall>x q. slot s x \<noteq> None \<and> ancestor q x \<and> registered Editors scene q \<longrightarrow>
          slot s q \<noteq> None))"

definition ordered :: "('p, 't) state \<Rightarrow> bool" where
  "ordered s = (\<forall>q pe. slot s q = Some pe \<longrightarrow> sorted_wrt (<) (childIndices s q pe))"

definition synced :: "registry \<Rightarrow> node \<Rightarrow> ('p, 't) state \<Rightarrow> bool" where
  "synced Editors scene s =
     (linked s \<and> slotted scene s \<and> mirrored Editors scene s \<and> ordered s)"

text \<open>
  The store after a successful \<open>insertEditor\<close> of \<open>ed\<close> into \<open>pe\<close> and the assignment of \<open>ed\<close>
  to the slot of \<open>x\<close>. A loose editor is allocated, stands in no slot, has no parent editor
  and no array of sub editors: the editor \<open>createEditor\<close> has just made.
\<close>

definition attached :: "('p, 't) state \<Rightarrow> edid \<Rightarrow> edid \<Rightarrow> edid list \<Rightarrow> elem \<Rightarrow> ('p, 't) state" where
  "attached s pe ed L x =
     (modify ed (\<lambda>e. e\<lparr>e_parentEditor := Some pe\<rparr>)
        (modify pe (\<lambda>e. e\<lparr>e_editors := Some L\<rparr>) s))\<lparr>slot := (slot s)(x \<mapsto> ed)\<rparr>"

definition loose :: "('p, 't) state \<Rightarrow> edid \<Rightarrow> elem \<Rightarrow> bool" where
  "loose s ed x =
     (ed < nextId s \<and> (\<forall>y. slot s y \<noteq> Some ed) \<and> e_parentEditor (heap s ed) = None \<and>
      e_editors (heap s ed) = None \<and> e_element (heap s ed) = x)"

text \<open>
  What a call of \<open>openEditor\<close> on \<open>x\<close> leaves alone (\<open>opened\<close>): the editors in the slots stay,
  new editors come into the slots of \<open>x\<close> and of its ancestors only, and an allocated editor
  that stands in no slot is not touched. \<open>open_post\<close> and \<open>loop_post\<close> are what holds after
  \<open>openEditor\<close> and after the loop over the ancestors, \<open>loop_pre\<close> what holds when the loop
  stands at \<open>po\<close>: no ancestor below \<open>po\<close> has an editor or a registered kind.
\<close>

definition opened :: "('p, 't) state \<Rightarrow> ('p, 't) state \<Rightarrow> elem \<Rightarrow> bool" where
  "opened s s' x =
     (nextId s \<le> nextId s' \<and>
      (\<forall>y. slot s y \<noteq> None \<longrightarrow> slot s' y = slot s y) \<and>
      (\<forall>y e. slot s y = None \<and> slot s' y = Some e \<longrightarrow> nextId s \<le> e \<and> (y = x \<or> ancestor y x)) \<and>
      (\<forall>e. e < nextId s \<and> (\<forall>y. slot s y \<noteq> Some e) \<longrightarrow> heap s' e = heap s e))"

definition open_post ::
  "registry \<Rightarrow> node \<Rightarrow> ('p, 't) state \<Rightarrow> elem \<Rightarrow> edid option \<Rightarrow> ('p, 't) state \<Rightarrow> bool" where
  "open_post Editors scene s x r s' =
     (synced Editors scene s' \<and> slot s' x = r \<and>
      (registered Editors scene x \<longrightarrow> r \<noteq> None) \<and>
      (\<not> registered Editors scene x \<and> slot s x = None \<longrightarrow> s' = s) \<and>
      opened s s' x \<and>
      (slot s x = None \<longrightarrow> (\<forall>e. r = Some e \<longrightarrow> e = nextId s \<and> e_editors (heap s' e) = None)))"

definition open_ok :: "registry \<Rightarrow> node \<Rightarrow> ('p, 't) state \<Rightarrow> elem \<Rightarrow> bool" where
  "open_ok Editors scene s x =
     (synced Editors scene s \<and> isAttached scene x \<longrightarrow>
        (\<exists>r s'. openEditor Editors scene s x = Inr (r, s') \<and> open_post Editors scene s x r s'))"

definition loop_pre ::
  "registry \<Rightarrow> node \<Rightarrow> ('p, 't) state \<Rightarrow> elem \<Rightarrow> edid \<Rightarrow> elem option \<Rightarrow> bool" where
  "loop_pre Editors scene s x ed po =
     (synced Editors scene s \<and> loose s ed x \<and> isAttached scene x \<and>
      registered Editors scene x \<and> slot s x = None \<and>
      (case po of None \<Rightarrow> True | Some q \<Rightarrow> ancestor q x) \<and>
      (\<forall>a. ancestor a x \<and> (case po of None \<Rightarrow> True | Some q \<Rightarrow> ancestor q a) \<longrightarrow>
           slot s a = None \<and> \<not> registered Editors scene a))"

definition loop_post ::
  "registry \<Rightarrow> node \<Rightarrow> ('p, 't) state \<Rightarrow> elem \<Rightarrow> edid \<Rightarrow> ('p, 't) state \<Rightarrow> bool" where
  "loop_post Editors scene s x ed s' =
     (synced Editors scene (s'\<lparr>slot := (slot s')(x \<mapsto> ed)\<rparr>) \<and> slot s' x = None \<and>
      nextId s \<le> nextId s' \<and>
      (\<forall>y. slot s y \<noteq> None \<longrightarrow> slot s' y = slot s y) \<and>
      (\<forall>y e. slot s y = None \<and> slot s' y = Some e \<longrightarrow> nextId s \<le> e \<and> ancestor y x) \<and>
      (\<forall>e. e < nextId s \<and> e \<noteq> ed \<and> (\<forall>y. slot s y \<noteq> Some e) \<longrightarrow> heap s' e = heap s e) \<and>
      e_editors (heap s' ed) = None)"

text \<open>
  A sequence of calls of \<open>openEditor\<close>, one after the other; the first error ends it.
\<close>

fun openAll ::
  "registry \<Rightarrow> node \<Rightarrow> ('p, 't) state \<Rightarrow> elem list \<Rightarrow> error + ('p, 't) state" where
  "openAll Editors scene s [] = Inr s"
| "openAll Editors scene s (element # elements) =
     (case openEditor Editors scene s element of
        Inl err \<Rightarrow> Inl err
      | Inr (editor, s') \<Rightarrow> openAll Editors scene s' elements)"

subsection \<open>Closing an editor\<close>


definition beneath :: "bool \<Rightarrow> elem \<Rightarrow> elem \<Rightarrow> bool" where
  "beneath self x y = (ancestor x y \<or> (self \<and> y = x))"


section \<open>Flags\<close>

lemma setFlag_unfold:
  "setFlag this flag s =
     (if hasFlag s this flag then s
      else s\<lparr>heap := (heap s)(this := (heap s this)\<lparr>e_flags := e_flags (heap s this) OR flag\<rparr>),
             log := log s @ [RequestInvalidation this (heap s this),
                             RequestInvalidation this
                               ((heap s this)\<lparr>e_flags := e_flags (heap s this) OR flag\<rparr>)]\<rparr>)"
  by (simp add: setFlag_def hasFlag_def requestInvalidation_def modify_def Let_def)

lemma removeFlag_unfold:
  "removeFlag this flag s =
     (if \<not> hasFlag s this flag then s
      else s\<lparr>heap := (heap s)(this := (heap s this)\<lparr>e_flags := e_flags (heap s this) AND NOT flag\<rparr>),
             log := log s @ [RequestInvalidation this (heap s this),
                             RequestInvalidation this
                               ((heap s this)\<lparr>e_flags := e_flags (heap s this) AND NOT flag\<rparr>)]\<rparr>)"
  by (simp add: removeFlag_def hasFlag_def requestInvalidation_def modify_def Let_def)

lemma hasFlag_after_remove: "\<not> hasFlag (removeFlag this flag s) this flag"
  by (simp add: removeFlag_unfold) (simp add: hasFlag_def word_bw_assocs)

lemma hasFlag_after_set: "flag \<noteq> 0 \<Longrightarrow> hasFlag (setFlag this flag s) this flag"
  by (auto simp: setFlag_unfold hasFlag_def bit.conj_disj_distrib2)

lemma exampleState_heap:
  "heap (exampleState fl sel tr) i =
     (newEditor [])\<lparr>e_flags := fl, e_transform := tr, e_partSelection := sel\<rparr>"
  by (simp add: exampleState_def)

text \<open>
  C7. A flag counts as set when \<open>hasFlag\<close> holds. \<open>setFlag\<close> of a set flag and \<open>removeFlag\<close> of a
  cleared flag return the state as it is: the same flags and not one more entry in the log.
  In the other two cases the log grows by exactly two requests for invalidation of this
  editor, the first taken with the flags as they were and the second with the flags after
  the change, and nothing else of the state changes.
\<close>

theorem flag_mutation_bracketed:
  "(hasFlag s this flag \<longrightarrow> setFlag this flag s = s) \<and>
   (\<not> hasFlag s this flag \<longrightarrow> removeFlag this flag s = s) \<and>
   (\<not> hasFlag s this flag \<longrightarrow>
      setFlag this flag s =
        s\<lparr>heap := (heap s)(this := (heap s this)\<lparr>e_flags := e_flags (heap s this) OR flag\<rparr>),
          log := log s @ [RequestInvalidation this (heap s this),
                          RequestInvalidation this
                            ((heap s this)\<lparr>e_flags := e_flags (heap s this) OR flag\<rparr>)]\<rparr>) \<and>
   (hasFlag s this flag \<longrightarrow>
      removeFlag this flag s =
        s\<lparr>heap := (heap s)(this := (heap s this)\<lparr>e_flags := e_flags (heap s this) AND NOT flag\<rparr>),
          log := log s @ [RequestInvalidation this (heap s this),
                          RequestInvalidation this
                            ((heap s this)\<lparr>e_flags := e_flags (heap s this) AND NOT flag\<rparr>)]\<rparr>)"
proof (cases "hasFlag s this flag")
  case True
  then show ?thesis
    by (simp add: setFlag_unfold removeFlag_unfold)
next
  case False
  then show ?thesis
    by (simp add: setFlag_unfold removeFlag_unfold)
qed

theorem flag_mutation_bracketed_witness:
  "hasFlag (exampleState 17 None None) 0 Flag_Outline \<and>
   log (setFlag 0 Flag_Outline (exampleState 17 None None)) = [] \<and>
   e_flags (heap (setFlag 0 Flag_Outline (exampleState 17 None None)) 0) = 17 \<and>
   \<not> hasFlag (exampleState 1 None None) 0 Flag_Outline \<and>
   log (removeFlag 0 Flag_Outline (exampleState 1 None None)) = [] \<and>
   e_flags (heap (removeFlag 0 Flag_Outline (exampleState 1 None None)) 0) = 1 \<and>
   length (log (setFlag 0 Flag_Outline (exampleState 1 None None))) = 2 \<and>
   e_flags (heap (setFlag 0 Flag_Outline (exampleState 1 None None)) 0) = 17 \<and>
   length (log (removeFlag 0 Flag_Outline (exampleState 17 None None))) = 2 \<and>
   e_flags (heap (removeFlag 0 Flag_Outline (exampleState 17 None None)) 0) = 1"
  using flag_mutation_bracketed [of "exampleState 17 None None" 0 Flag_Outline]
        flag_mutation_bracketed [of "exampleState 1 None None" 0 Flag_Outline]
  by (simp add: hasFlag_def exampleState_heap Flag_Outline_def newEditor_def)
     (simp add: exampleState_def)

section \<open>The staged transformation\<close>

lemma transform_after_removeFlag [simp]:
  "e_transform (heap (removeFlag this flag s) x) = e_transform (heap s x)"
  by (simp add: removeFlag_unfold)

lemma resetTransform_clears: "e_transform (heap (resetTransform isIdentity this s) this) = None"
  by (simp add: resetTransform_def Let_def modify_def)

lemma resetTransform_outline: "\<not> hasFlag (resetTransform isIdentity this s) this Flag_Outline"
  by (simp add: resetTransform_def Let_def hasFlag_after_remove)

lemma elementTransforms_append [simp]:
  "elementTransforms (xs @ ys) = elementTransforms xs @ elementTransforms ys"
  by (simp add: elementTransforms_def)

lemma elementTransforms_simps [simp]:
  "elementTransforms [] = []"
  "elementTransforms (ElementTransform el t # evs) = (el, t) # elementTransforms evs"
  "elementTransforms (RequestInvalidation e r # evs) = elementTransforms evs"
  by (simp_all add: elementTransforms_def)

lemma resetTransform_log:
  "\<exists>evs. log (resetTransform isIdentity this s) = log s @ evs \<and> elementTransforms evs = []"
  by (simp add: resetTransform_def Let_def modify_def removeFlag_unfold requestInvalidation_def
      split: option.splits)

text \<open>
  C6. When a transformation \<open>T\<close> that is not the identity is staged, \<open>applyTransform\<close> returns
  normally; the log grows by the call \<open>element.transform(T)\<close> followed by requests for
  invalidation only, so the element is transformed exactly once, with \<open>T\<close>; afterwards no
  transformation is staged and the Outline flag is not set.
\<close>

theorem applyTransform_commits_once:
  assumes "e_transform (heap s this) = Some T" and "\<not> isIdentity T"
  shows "\<exists>s' evs. applyTransform isIdentity this element s = Inr s' \<and>
           log s' = log s @ ElementTransform element T # evs \<and>
           elementTransforms (log s') = elementTransforms (log s) @ [(element, T)] \<and>
           e_transform (heap s' this) = None \<and>
           \<not> hasFlag s' this Flag_Outline"
proof -
  let ?s1 = "s\<lparr>log := log s @ [ElementTransform element T]\<rparr>"
  have r: "applyTransform isIdentity this element s = Inr (resetTransform isIdentity this ?s1)"
    using assms by (simp add: applyTransform_def)
  obtain evs where evs: "log (resetTransform isIdentity this ?s1) = log ?s1 @ evs"
      "elementTransforms evs = []"
    using resetTransform_log by blast
  then have l: "log (resetTransform isIdentity this ?s1) = log s @ ElementTransform element T # evs"
    by simp
  have "elementTransforms (log (resetTransform isIdentity this ?s1)) =
          elementTransforms (log s) @ [(element, T)]"
    by (simp add: l evs(2))
  then show ?thesis
    using r l resetTransform_clears [of isIdentity this ?s1]
      resetTransform_outline [of isIdentity this ?s1] by blast
qed

theorem applyTransform_commits_once_witness:
  "\<exists>s'. applyTransform (\<lambda>t. t = 0) 0 [3] (exampleState 17 None (Some 5)) = Inr s' \<and>
     elementTransforms (log s') = [([3], 5)] \<and>
     e_transform (heap s' 0) = None \<and>
     \<not> hasFlag s' 0 Flag_Outline"
  using applyTransform_commits_once [of "exampleState 17 None (Some 5)" 0 5 "\<lambda>t. t = 0" "[3]"]
  by (auto simp: exampleState_def newEditor_def)

text \<open>
  The scenario of the specification: \<open>transform(T)\<close> stages \<open>T\<close> whenever \<open>GTransform.equals\<close>
  tells it apart from what is staged, and sets the Outline flag; \<open>applyTransform\<close> then
  hands \<open>T\<close> to the element once.
\<close>

lemma transform_stages:
  assumes "\<not> GTransform_equals (e_transform (heap s this)) (Some T)"
  shows "e_transform (heap (transform GTransform_equals this T s) this) = Some T"
    and "hasFlag (transform GTransform_equals this T s) this Flag_Outline"
    and "elementTransforms (log (transform GTransform_equals this T s)) = elementTransforms (log s)"
  using assms
  by (simp_all add: transform_def Let_def modify_def requestInvalidation_def setFlag_unfold
      hasFlag_def Flag_Outline_def)

lemma transform_then_applyTransform:
  assumes "\<not> GTransform_equals (e_transform (heap s this)) (Some T)" and "\<not> isIdentity T"
  shows "\<exists>s'. applyTransform isIdentity this element (transform GTransform_equals this T s) = Inr s' \<and>
           elementTransforms (log s') = elementTransforms (log s) @ [(element, T)] \<and>
           e_transform (heap s' this) = None \<and>
           \<not> hasFlag s' this Flag_Outline"
proof -
  let ?s1 = "transform GTransform_equals this T s"
  have staged: "e_transform (heap ?s1 this) = Some T"
    using assms(1) by (rule transform_stages(1))
  have same: "elementTransforms (log ?s1) = elementTransforms (log s)"
    using assms(1) by (rule transform_stages(3))
  let ?s2 = "?s1\<lparr>log := log ?s1 @ [ElementTransform element T]\<rparr>"
  have r: "applyTransform isIdentity this element ?s1 = Inr (resetTransform isIdentity this ?s2)"
    using staged assms(2) by (simp add: applyTransform_def)
  obtain evs where evs: "log (resetTransform isIdentity this ?s2) = log ?s2 @ evs"
      "elementTransforms evs = []"
    using resetTransform_log by blast
  have "elementTransforms (log (resetTransform isIdentity this ?s2)) =
          elementTransforms (log s) @ [(element, T)]"
    by (simp add: evs same)
  then show ?thesis
    using r resetTransform_clears [of isIdentity this ?s2]
      resetTransform_outline [of isIdentity this ?s2] by blast
qed

text \<open>
  C10. \<open>applyTransform\<close> reads \<open>this._transform.isIdentity()\<close> without a guard. When nothing is
  staged the call ends in a \<open>TypeError\<close>, whatever \<open>isIdentity\<close> and the element are. Nothing
  is staged after \<open>resetTransform\<close>, and nothing is staged in an editor fresh from its
  constructor.
\<close>

theorem applyTransform_null_transform:
  "(e_transform (heap s this) = None \<longrightarrow>
      applyTransform isIdentity this element s = Inl TypeError) \<and>
   applyTransform isIdentity this element (resetTransform isIdentity this s) = Inl TypeError \<and>
   (heap s this = newEditor x \<longrightarrow> applyTransform isIdentity this element s = Inl TypeError)"
proof (intro conjI impI)
  show "applyTransform isIdentity this element (resetTransform isIdentity this s) = Inl TypeError"
    by (simp add: applyTransform_def resetTransform_clears)
next
  assume "e_transform (heap s this) = None"
  then show "applyTransform isIdentity this element s = Inl TypeError"
    by (simp add: applyTransform_def)
next
  assume "heap s this = newEditor x"
  then show "applyTransform isIdentity this element s = Inl TypeError"
    by (simp add: applyTransform_def newEditor_def)
qed

theorem applyTransform_null_transform_witness:
  "e_transform (heap (exampleState 1 None None) 0) = None \<and>
   applyTransform (\<lambda>t. t = 0) 0 [3] (exampleState 1 None None) = Inl TypeError \<and>
   applyTransform (\<lambda>t. t = 0) 0 [3]
     (resetTransform (\<lambda>t. t = 0) 0 (exampleState 17 None (Some 5))) = Inl TypeError \<and>
   heap (exampleState 0 None None) 0 = newEditor [] \<and>
   applyTransform (\<lambda>t. t = 0) 0 [3] (exampleState 0 None None) = Inl TypeError"
  using applyTransform_null_transform [of "exampleState 1 None None" 0 "\<lambda>t. t = 0" "[3]"]
    applyTransform_null_transform [of "exampleState 17 None (Some 5)" 0 "\<lambda>t. t = 0" "[3]"]
    applyTransform_null_transform [of "exampleState 0 None None" 0 "\<lambda>t. t = 0" "[3]" "[]"]
  by (simp add: exampleState_heap newEditor_def)

section \<open>Part selection\<close>

lemma indexFrom_neg: "0 \<le> i \<Longrightarrow> (indexFrom xs p i < 0) = (p \<notin> set xs)"
  by (induction xs arbitrary: i) (auto simp: priv_partIdAreEqual_def)

lemma indexOfPartId_neg: "(priv_indexOfPartId (Some xs) p < 0) = (p \<notin> set xs)"
  by (cases xs) (auto simp: priv_indexOfPartId_def indexFrom_neg priv_partIdAreEqual_def)

lemma indexOfPartId_None: "priv_indexOfPartId None p < 0"
  by (simp add: priv_indexOfPartId_def)

lemma toggledSelection_eq:
  "toggledSelection cur sel =
     filter (\<lambda>p. p \<notin> set sel) cur @ filter (\<lambda>p. p \<notin> set cur) sel"
  by (simp add: toggledSelection_def indexOfPartId_neg)

lemma set_toggledSelection:
  "set (toggledSelection cur sel) = (set cur - set sel) \<union> (set sel - set cur)"
  by (auto simp: toggledSelection_eq)

lemma isPartSelected_iff:
  "isPartSelected s this p = (p \<in> selectionSet (getPartSelection s this))"
proof (cases "e_partSelection (heap s this)")
  case None
  then show ?thesis using indexOfPartId_None [of p]
    by (simp add: isPartSelected_def selectionSet_def getPartSelection_def)
next
  case (Some xs)
  then show ?thesis using indexOfPartId_neg [of xs p]
    by (auto simp: isPartSelected_def selectionSet_def getPartSelection_def)
qed

lemma sel_priv_update:
  "e_partSelection (heap (priv_updatePartSelection this sel s) this) = sel"
  by (simp add: priv_updatePartSelection_def Let_def modify_def requestInvalidation_def)

lemma upd_toggle_sel:
  assumes "hasFlag s this Flag_Selected"
  shows "getPartSelection (updatePartSelection eq this True (Some S) s) this =
     (if eq (computedSelection (getPartSelection s this) S) (getPartSelection s this) then getPartSelection s this
      else computedSelection (getPartSelection s this) S)"
proof (cases "e_partSelection (heap s this)")
  case None
  then show ?thesis using assms
    by (simp add: updatePartSelection_def computedSelection_def Let_def getPartSelection_def sel_priv_update)
next
  case (Some c)
  then show ?thesis using assms
    by (simp add: updatePartSelection_def computedSelection_def Let_def getPartSelection_def sel_priv_update)
qed

lemma upd_hasFlag: "hasFlag (updatePartSelection eq this tg sel s) x f = hasFlag s x f"
  by (simp add: updatePartSelection_def Let_def priv_updatePartSelection_def hasFlag_def modify_def requestInvalidation_def)

lemma set_computedSelection: "selectionSet (computedSelection cur S) = (selectionSet cur - set S) \<union> (set S - selectionSet cur)"
proof (cases cur)
  case None
  then show ?thesis by (simp add: computedSelection_def selectionSet_def)
next
  case (Some c)
  have "toggledSelection c S = [] \<Longrightarrow> (set c - set S) \<union> (set S - set c) = {}"
    using set_toggledSelection [of c S] by simp
  then show ?thesis using Some
    by (simp add: computedSelection_def selectionSet_def set_toggledSelection)
qed

lemma sound_set:
  assumes "\<And>a b. eq a b \<Longrightarrow> map_option mset a = map_option mset b" "eq a b"
  shows "selectionSet a = selectionSet b"
proof -
  have "map_option mset a = map_option mset b" using assms by blast
  then show ?thesis
    by (cases a; cases b) (auto simp: selectionSet_def dest: mset_eq_setD)
qed

lemma step_set:
  assumes sound: "\<And>a b. eq a b \<Longrightarrow> map_option mset a = map_option mset b"
    and "hasFlag s this Flag_Selected"
  shows "selectionSet (getPartSelection (updatePartSelection eq this True (Some S) s) this) =
      (selectionSet (getPartSelection s this) - set S) \<union> (set S - selectionSet (getPartSelection s this))"
proof (cases "eq (computedSelection (getPartSelection s this) S) (getPartSelection s this)")
  case True
  then have "selectionSet (computedSelection (getPartSelection s this) S) = selectionSet (getPartSelection s this)"
    using sound by (rule sound_set [rotated])
  then show ?thesis using True by (simp add: upd_toggle_sel [OF assms(2)] set_computedSelection)
next
  case False
  then show ?thesis by (simp add: upd_toggle_sel [OF assms(2)] set_computedSelection)
qed

lemma mset_toggled_same:
  assumes "mset (toggledSelection c S) = mset c"
  shows "toggledSelection c S = c"
proof -
  have p: "mset (filter (\<lambda>p. p \<notin> set S) c) + mset (filter (\<lambda>p. p \<in> set S) c) = mset c"
    using multiset_partition [of "mset c" "\<lambda>p. p \<notin> set S"] by simp
  have "mset (filter (\<lambda>p. p \<notin> set S) c) + mset (filter (\<lambda>p. p \<notin> set c) S) = mset c"
    using assms by (simp only: toggledSelection_eq mset_append)
  then have "mset (filter (\<lambda>p. p \<notin> set S) c) + mset (filter (\<lambda>p. p \<notin> set c) S) =
      mset (filter (\<lambda>p. p \<notin> set S) c) + mset (filter (\<lambda>p. p \<in> set S) c)"
    by (simp only: p)
  then have e: "mset (filter (\<lambda>p. p \<notin> set c) S) = mset (filter (\<lambda>p. p \<in> set S) c)"
    by (simp only: add_left_cancel)
  have "filter (\<lambda>p. p \<notin> set c) S = []"
  proof (rule ccontr)
    assume "filter (\<lambda>p. p \<notin> set c) S \<noteq> []"
    then obtain x where x: "x \<in> set (filter (\<lambda>p. p \<notin> set c) S)"
      by (cases "filter (\<lambda>p. p \<notin> set c) S") auto
    have "set (filter (\<lambda>p. p \<notin> set c) S) = set (filter (\<lambda>p. p \<in> set S) c)"
      using e by (rule mset_eq_setD)
    with x have "x \<in> set (filter (\<lambda>p. p \<in> set S) c)" by blast
    with x show False by simp
  qed
  moreover from this e have "filter (\<lambda>p. p \<in> set S) c = []" by simp
  then have "filter (\<lambda>p. p \<notin> set S) c = c"
    by (simp add: filter_empty_conv filter_id_conv)
  ultimately show ?thesis by (simp add: toggledSelection_eq)
qed

lemma step_exact:
  assumes sound: "\<And>a b. eq a b \<Longrightarrow> map_option mset a = map_option mset b"
    and "hasFlag s this Flag_Selected" and "getPartSelection s this = Some c"
  shows "getPartSelection (updatePartSelection eq this True (Some S) s) this = computedSelection (Some c) S"
proof (cases "eq (computedSelection (Some c) S) (Some c)")
  case True
  then have "map_option mset (computedSelection (Some c) S) = Some (mset c)"
    using sound [of "computedSelection (Some c) S" "Some c"] by simp
  then have "computedSelection (Some c) S = Some c"
  proof (cases "toggledSelection c S = []")
    case True
    assume "map_option mset (computedSelection (Some c) S) = Some (mset c)"
    with True show ?thesis by (simp add: computedSelection_def)
  next
    case False
    assume "map_option mset (computedSelection (Some c) S) = Some (mset c)"
    with False have "mset (toggledSelection c S) = mset c" by (simp add: computedSelection_def)
    then have "toggledSelection c S = c" by (rule mset_toggled_same)
    with False show ?thesis by (simp add: computedSelection_def)
  qed
  then show ?thesis using True assms by (simp add: upd_toggle_sel)
next
  case False
  then show ?thesis using assms by (simp add: upd_toggle_sel)
qed

lemma step_null:
  assumes sound: "\<And>a b. eq a b \<Longrightarrow> map_option mset a = map_option mset b"
    and "hasFlag s this Flag_Selected" and "getPartSelection s this = None"
  shows "getPartSelection (updatePartSelection eq this True (Some S) s) this = (if S = [] then None else Some S)"
proof -
  have "\<not> eq (Some S) None" using sound [of "Some S" None] by auto
  then show ?thesis using assms(2,3) by (simp add: upd_toggle_sel computedSelection_def)
qed

text \<open>
  C5. The selection is the set of selected part ids, as \<open>isPartSelected\<close> observes it; the
  array that holds it may come back in another order. \<open>gUtil.equals\<close> is only assumed to
  answer true for no two selections that differ by value (as multisets, or one being
  \<open>null\<close>). On an editor with the Selected flag, two calls of
  \<open>updatePartSelection(true, S)\<close> give back the selected set, and every id is selected after
  them exactly if it was before. With a current selection \<open>cur\<close>, one call leaves the ids of
  \<open>cur\<close> that are not in \<open>S\<close>, followed by the ids of \<open>S\<close> that are not in \<open>cur\<close>, and
  \<open>null\<close> when there are none.
\<close>

theorem toggle_twice_restores:
  fixes s :: "('p, 't) state"
  assumes sound: "\<And>a b. gUtil_equals a b \<Longrightarrow> map_option mset a = map_option mset b"
    and selected: "hasFlag s this Flag_Selected"
  shows "selectionSet (getPartSelection
           (updatePartSelection gUtil_equals this True (Some S)
             (updatePartSelection gUtil_equals this True (Some S) s)) this) =
         selectionSet (getPartSelection s this) \<and>
         (\<forall>p. isPartSelected
           (updatePartSelection gUtil_equals this True (Some S)
             (updatePartSelection gUtil_equals this True (Some S) s)) this p =
           isPartSelected s this p) \<and>
         (\<forall>cur. getPartSelection s this = Some cur \<longrightarrow>
            getPartSelection (updatePartSelection gUtil_equals this True (Some S) s) this =
              (let new = filter (\<lambda>p. p \<notin> set S) cur @ filter (\<lambda>p. p \<notin> set cur) S
               in if new = [] then None else Some new))"
proof -
  let ?s1 = "updatePartSelection gUtil_equals this True (Some S) s"
  have sel1: "hasFlag ?s1 this Flag_Selected" using selected by (simp add: upd_hasFlag)
  have a: "selectionSet (getPartSelection (updatePartSelection gUtil_equals this True (Some S) ?s1) this) =
         selectionSet (getPartSelection s this)"
  proof -
    have "selectionSet (getPartSelection (updatePartSelection gUtil_equals this True (Some S) ?s1) this) =
        (selectionSet (getPartSelection ?s1 this) - set S) \<union> (set S - selectionSet (getPartSelection ?s1 this))"
      using sound sel1 by (rule step_set)
    moreover have "selectionSet (getPartSelection ?s1 this) =
        (selectionSet (getPartSelection s this) - set S) \<union> (set S - selectionSet (getPartSelection s this))"
      using sound selected by (rule step_set)
    ultimately show ?thesis by blast
  qed
  have c: "getPartSelection s this = Some cur \<Longrightarrow>
            getPartSelection ?s1 this =
              (let new = filter (\<lambda>p. p \<notin> set S) cur @ filter (\<lambda>p. p \<notin> set cur) S
               in if new = [] then None else Some new)" for cur
    using step_exact [of gUtil_equals s this cur S] sound selected
    by (simp add: computedSelection_def toggledSelection_eq Let_def)
  show ?thesis using a c by (simp add: isPartSelected_iff)
qed

text \<open>
  The scenario of the specification, with the comparison the specification describes:
  the selection \<open>[1, 2]\<close> toggled with \<open>[2, 3]\<close> is \<open>[1, 3]\<close>, and toggled once more it is
  the set \<open>{1, 2}\<close> again.
\<close>

lemma equalsByValue_sound: "equalsByValue a b \<Longrightarrow> map_option mset a = map_option mset b"
  by (cases a; cases b) (simp_all add: equalsByValue_def)

theorem toggle_twice_restores_witness:
  "hasFlag (exampleState 1 (Some [1, 2]) None) 0 Flag_Selected \<and>
   getPartSelection (exampleState 1 (Some [1, 2]) None) 0 = Some [1, 2] \<and>
   getPartSelection (updatePartSelection equalsByValue 0 True (Some [2, 3])
       (exampleState 1 (Some [1, 2]) None)) 0 = Some [1, 3] \<and>
   selectionSet (getPartSelection
       (updatePartSelection equalsByValue 0 True (Some [2, 3])
         (updatePartSelection equalsByValue 0 True (Some [2, 3])
           (exampleState 1 (Some [1, 2]) None))) 0) = {1, 2}"
  using toggle_twice_restores [of equalsByValue "exampleState 1 (Some [1, 2]) None" 0 "[2, 3]",
      OF equalsByValue_sound]
  by (simp add: hasFlag_def exampleState_heap Flag_Selected_def newEditor_def getPartSelection_def
      selectionSet_def)

section \<open>The bounding box of an annotation\<close>

text \<open>
  Where the exponent of the last place is, and that a multiple of one half of a magnitude
  below \<open>2 ^ 52\<close> is a double: rounding leaves it as it is.
\<close>

lemma roundTiesToEven_of_int: "roundTiesToEven (of_int n) = n"
  by (simp add: roundTiesToEven_def)

lemma ulpExp_ge: "- 1074 \<le> ulpExp x"
  by (simp add: ulpExp_def)

lemma ulpExp_small:
  assumes "\<bar>x\<bar> < 2 ^ 52"
  shows "ulpExp x \<le> - 1"
proof -
  have "\<bar>x\<bar> * 2 ^ 1074 < 2 ^ 52 * 2 ^ 1074"
    using assms by (simp only: mult_strict_right_mono zero_less_power zero_less_numeral)
  also have "(2::real) ^ 52 * 2 ^ 1074 = 2 ^ 1126"
    by (simp only: power_add [symmetric]) simp
  finally have "\<bar>x\<bar> * 2 ^ 1074 < of_int (2 ^ 1126)"
    by simp
  then have "\<lfloor>\<bar>x\<bar> * 2 ^ 1074\<rfloor> < 2 ^ 1126"
    by (simp only: floor_less_iff)
  then have "bitlen \<lfloor>\<bar>x\<bar> * 2 ^ 1074\<rfloor> \<le> 1126"
    by (simp add: bitlen_le_iff_power)
  then show ?thesis
    by (simp add: ulpExp_def)
qed

lemma ulpExp_eq:
  assumes lo: "2 powi e \<le> \<bar>x\<bar>" and hi: "\<bar>x\<bar> < 2 powi (e + 1)" and e: "- 1022 \<le> e"
  shows "ulpExp x = e - 52"
proof -
  define k where "k = nat (e + 1074)"
  have ke: "int k = e + 1074"
    using e by (simp add: k_def)
  have p1: "(2::real) powi e * 2 ^ 1074 = 2 ^ k"
  proof -
    have "(2::real) powi e * 2 ^ 1074 = 2 powi e * 2 powi 1074"
      by simp
    also have "\<dots> = 2 powi (e + 1074)"
      by (simp add: power_int_add)
    also have "\<dots> = 2 ^ k"
      using ke e by (simp add: power_int_def k_def)
    finally show ?thesis .
  qed
  have p2: "(2::real) powi (e + 1) * 2 ^ 1074 = 2 ^ Suc k"
  proof -
    have "(2::real) powi (e + 1) = 2 powi e * 2"
      by (simp add: power_int_add)
    then show ?thesis
      using p1 by simp
  qed
  let ?m = "\<lfloor>\<bar>x\<bar> * 2 ^ 1074\<rfloor>"
  have "2 ^ k \<le> \<bar>x\<bar> * 2 ^ 1074"
    using mult_right_mono [OF lo, of "2 ^ 1074"] p1 by simp
  then have "of_int (2 ^ k) \<le> \<bar>x\<bar> * 2 ^ 1074"
    by simp
  then have low: "2 ^ k \<le> ?m"
    by (simp only: le_floor_iff)
  have "\<bar>x\<bar> * 2 ^ 1074 < 2 ^ Suc k"
    using mult_strict_right_mono [OF hi, of "2 ^ 1074"] p2 by simp
  then have "\<bar>x\<bar> * 2 ^ 1074 < of_int (2 ^ Suc k)"
    by simp
  then have high: "?m < 2 ^ Suc k"
    by (simp only: floor_less_iff)
  have "bitlen ?m \<le> int (Suc k)"
    using high by (simp only: bitlen_le_iff_power nat_int of_nat_0_le_iff simp_thms)
  moreover have "int (Suc k) \<le> bitlen ?m"
    using low by (simp only: bitlen_ge_iff_power nat_int diff_Suc_1 simp_thms)
  ultimately have "bitlen ?m = int k + 1"
    by (simp only: of_nat_Suc)
  then show ?thesis
    using ke e by (simp add: ulpExp_def)
qed

lemma roundNumber_half:
  assumes x: "x = of_int z / 2" and small: "\<bar>x\<bar> < 2 ^ 52"
  shows "roundNumber x = Num x"
proof -
  define u where "u = ulpExp x"
  define j where "j = nat (- u - 1)"
  have u: "u \<le> - 1"
    using ulpExp_small [OF small] by (simp add: u_def)
  have ju: "u = - int j - 1"
    using u by (simp add: j_def)
  have q: "(2::real) powi u = 1 / (2 * 2 ^ j)"
    by (simp add: ju power_int_def nat_add_distrib field_simps)
  have quot: "x / 2 powi u = of_int (z * 2 ^ j)"
    by (simp add: q x)
  have again: "of_int (z * 2 ^ j) * (2::real) powi u = x"
    by (simp add: q x)
  have big: "x < 2 ^ 1024" "- (2 ^ 1024) < x"
  proof -
    have "(2::real) ^ 52 \<le> 2 ^ 1024"
      by (rule power_increasing) simp_all
    then show "x < 2 ^ 1024" "- (2 ^ 1024) < x"
      using small by linarith+
  qed
  show ?thesis
    unfolding roundNumber_def Let_def u_def [symmetric] quot roundTiesToEven_of_int again
    using big by auto
qed

lemma addNumber_exact:
  assumes "a + b = of_int z / 2" and "\<bar>a + b\<bar> < 2 ^ 52"
  shows "addNumber (Num a) (Num b) = Num (a + b)"
  using roundNumber_half [OF assms] by simp

lemma subNumber_exact:
  assumes "b \<noteq> 0" and "a - b = of_int z / 2" and "\<bar>a - b\<bar> < 2 ^ 52"
  shows "subNumber (Num a) (Num b) = Num (a - b)"
proof -
  have "negNumber (Num b) = Num (- b)"
    using assms(1) by simp
  moreover have "addNumber (Num a) (Num (- b)) = Num (a + - b)"
    by (rule addNumber_exact [where z = z]) (use assms in simp_all)
  ultimately show ?thesis
    by (simp only: subNumber_def) simp
qed

lemma half_size: "divNumber (Num 6) (Num 2) = Num 3"
  using roundNumber_half [of 3 6] by (simp add: divNumber_def)

lemma regular_side: "addNumber annotationSizeRegular (Num 2) = Num 8"
  using addNumber_exact [of 6 2 16] by (simp add: annotationSizeRegular_def)

lemma half_integer_small:
  assumes "- 4503599627370495 \<le> n + k" and "n + k \<le> (4503599627370495::int)"
  shows "of_int n + 1 / 2 + of_int k = real_of_int (2 * (n + k) + 1) / 2"
    and "\<bar>real_of_int n + 1 / 2 + of_int k\<bar> < 2 ^ 52"
proof -
  show "of_int n + 1 / 2 + of_int k = real_of_int (2 * (n + k) + 1) / 2"
    by simp
  have "- 4503599627370495 \<le> real_of_int (n + k)" "real_of_int (n + k) \<le> 4503599627370495"
    using assms by linarith+
  then show "\<bar>real_of_int n + 1 / 2 + of_int k\<bar> < 2 ^ 52"
    by (simp add: abs_less_iff)
qed

lemma snapped:
  assumes v: "finiteValue c = Some a" and lo: "- (2 ^ 52) + 4 \<le> a" and hi: "a < 2 ^ 52"
  shows "subNumber (subNumber (addNumber (Math_floor c) (Num 0.5)) (Num 3)) (Num 1) =
         Num (of_int \<lfloor>a\<rfloor> + 1 / 2 - 8 / 2)"
proof -
  define n where "n = \<lfloor>a\<rfloor>"
  have "of_int (- 4503599627370492) \<le> a"
    using lo by simp
  then have nlo: "- 4503599627370492 \<le> n"
    unfolding n_def by (simp only: le_floor_iff)
  have "a < of_int 4503599627370496"
    using hi by simp
  then have nhi: "n < 4503599627370496"
    unfolding n_def by (simp only: floor_less_iff)
  have first: "addNumber (Math_floor c) (Num 0.5) = Num (of_int n + 1 / 2)"
  proof (cases c)
    case (Num r)
    then have "r = a"
      using v by simp
    have "addNumber (Num (of_int n)) (Num (1 / 2)) = Num (of_int n + 1 / 2)"
      using half_integer_small [of n 0] nlo nhi
      by (intro addNumber_exact [where z = "2 * (n + 0) + 1"]) simp_all
    then show ?thesis
      unfolding Num \<open>r = a\<close> Math_floor.simps n_def by simp
  next
    case NegZero
    then have "a = 0"
      using v by simp
    then show ?thesis
      unfolding NegZero n_def by simp
  next
    case PosInfinity
    then show ?thesis
      using v by simp
  next
    case NegInfinity
    then show ?thesis
      using v by simp
  next
    case NaN
    then show ?thesis
      using v by simp
  qed
  have second: "subNumber (Num (of_int n + 1 / 2)) (Num 3) = Num (of_int n + 1 / 2 - 3)"
    using half_integer_small [of n "- 3"] nlo nhi
    by (intro subNumber_exact [where z = "2 * (n + - 3) + 1"]) simp_all
  have third: "subNumber (Num (of_int n + 1 / 2 - 3)) (Num 1) = Num (of_int n + 1 / 2 - 3 - 1)"
    using half_integer_small [of n "- 4"] nlo nhi
    by (intro subNumber_exact [where z = "2 * (n + - 4) + 1"]) simp_all
  show ?thesis
    unfolding first second third n_def [symmetric] by simp
qed

text \<open>The steps of the function at the center \<open>(2 ^ 52, 10 ^ 16)\<close>.\<close>

lemma add_half_x: "addNumber (Num 4503599627370496) (Num 0.5) = Num 4503599627370496"
proof -
  have "ulpExp (4503599627370496 + 1 / 2) = 52 - 52"
    by (rule ulpExp_eq) simp_all
  then show ?thesis
    by (simp add: roundNumber_def roundTiesToEven_def)
qed

lemma add_half_y: "addNumber (Num 10000000000000000) (Num 0.5) = Num 10000000000000000"
proof -
  have "ulpExp (10000000000000000 + 1 / 2) = 53 - 52"
    by (rule ulpExp_eq) simp_all
  then show ?thesis
    by (simp add: roundNumber_def roundTiesToEven_def)
qed

lemma sub_three_y: "subNumber (Num 10000000000000000) (Num 3) = Num 9999999999999996"
proof -
  have "ulpExp (10000000000000000 - 3) = 53 - 52"
    by (rule ulpExp_eq) simp_all
  then show ?thesis
    by (simp add: subNumber_def roundNumber_def roundTiesToEven_def)
qed

lemma sub_one_y: "subNumber (Num 9999999999999996) (Num 1) = Num 9999999999999996"
proof -
  have "ulpExp (9999999999999996 - 1) = 53 - 52"
    by (rule ulpExp_eq) simp_all
  then show ?thesis
    by (simp add: subNumber_def roundNumber_def roundTiesToEven_def)
qed

lemma sub_three_x: "subNumber (Num 4503599627370496) (Num 3) = Num 4503599627370493"
  using subNumber_exact [of 3 4503599627370496 9007199254740986] by simp

lemma sub_one_x: "subNumber (Num 4503599627370493) (Num 1) = Num 4503599627370492"
  using subNumber_exact [of 1 4503599627370493 9007199254740984] by simp

text \<open>
  C9, as amended. For the regular size (\<open>small\<close> false), whatever the view transformation
  (or none) and the center: width and height are \<open>annotationSizeRegular + 2 = 8\<close>. When the
  coordinates \<open>a\<close> and \<open>b\<close> of the mapped center are finite and lie from \<open>- 2 ^ 52 + 4\<close> up
  to, and without, \<open>2 ^ 52\<close>, the box is the one of side 8 whose middle is the mapped center
  with each coordinate rounded down and moved by one half: its corner is at
  \<open>floor a + 1 / 2 - 8 / 2\<close> and \<open>floor b + 1 / 2 - 8 / 2\<close>, without any rounding. The function
  takes no paint context and yields nothing but the rectangle.
\<close>

theorem annotation_bbox_regular:
  "r_width (priv_getAnnotationBBox mapPoint viewTransform center False) = Num 8 \<and>
   r_height (priv_getAnnotationBBox mapPoint viewTransform center False) = Num 8 \<and>
   addNumber annotationSizeRegular (Num 2) = Num 8 \<and>
   (finiteValue (fst (case viewTransform of None \<Rightarrow> center | Some t \<Rightarrow> mapPoint t center)) = Some a \<and>
    finiteValue (snd (case viewTransform of None \<Rightarrow> center | Some t \<Rightarrow> mapPoint t center)) = Some b \<and>
    - (2 ^ 52) + 4 \<le> a \<and> a < 2 ^ 52 \<and> - (2 ^ 52) + 4 \<le> b \<and> b < 2 ^ 52 \<longrightarrow>
    r_x (priv_getAnnotationBBox mapPoint viewTransform center False) =
      Num (of_int \<lfloor>a\<rfloor> + 1 / 2 - 8 / 2) \<and>
    r_y (priv_getAnnotationBBox mapPoint viewTransform center False) =
      Num (of_int \<lfloor>b\<rfloor> + 1 / 2 - 8 / 2))"
proof -
  let ?c = "case viewTransform of None \<Rightarrow> center | Some t \<Rightarrow> mapPoint t center"
  let ?box = "priv_getAnnotationBBox mapPoint viewTransform center False"
  have x: "r_x ?box = subNumber (subNumber (addNumber (Math_floor (fst ?c)) (Num 0.5)) (Num 3)) (Num 1)"
    by (simp only: priv_getAnnotationBBox_def Let_def GRect.simps if_False annotationSizeRegular_def
        half_size)
  have y: "r_y ?box = subNumber (subNumber (addNumber (Math_floor (snd ?c)) (Num 0.5)) (Num 3)) (Num 1)"
    by (simp only: priv_getAnnotationBBox_def Let_def GRect.simps if_False annotationSizeRegular_def
        half_size)
  have w: "r_width ?box = Num 8" "r_height ?box = Num 8"
    by (simp_all only: priv_getAnnotationBBox_def Let_def GRect.simps if_False regular_side)
  show ?thesis
    unfolding x y using w regular_side snapped by blast
qed

theorem annotation_bbox_regular_witness:
  "r_x (priv_getAnnotationBBox mirror (Some True) (Num (5 / 4), Num (- 7 / 2)) False) = Num (- 15 / 2) \<and>
   r_y (priv_getAnnotationBBox mirror (Some True) (Num (5 / 4), Num (- 7 / 2)) False) = Num (- 5 / 2) \<and>
   r_width (priv_getAnnotationBBox mirror (Some True) (Num (5 / 4), Num (- 7 / 2)) False) = Num 8 \<and>
   r_height (priv_getAnnotationBBox mirror (Some True) (Num (5 / 4), Num (- 7 / 2)) False) = Num 8"
  using annotation_bbox_regular [of mirror "Some True" "(Num (5 / 4), Num (- 7 / 2))" "- 7 / 2" "5 / 4"]
  by (simp add: mirror_def)

text \<open>
  C9 as stated, for every center point, does not hold: from \<open>2 ^ 52\<close> on the doubles are
  whole numbers, the half is rounded away, and at the center \<open>(2 ^ 52, 10 ^ 16)\<close> the corner
  of the box is at \<open>(2 ^ 52 - 4, 10 ^ 16 - 4)\<close>, so that its middle is the center itself and
  not the center moved by one half.
\<close>

theorem annotation_bbox_large_center:
  "priv_getAnnotationBBox mirror None (Num (2 ^ 52), Num (10 ^ 16)) False =
     \<lparr>r_x = Num 4503599627370492, r_y = Num 9999999999999996,
      r_width = Num 8, r_height = Num 8\<rparr> \<and>
   Num 4503599627370492 \<noteq> Num (of_int \<lfloor>2 ^ 52 :: real\<rfloor> + 1 / 2 - 8 / 2) \<and>
   Num 9999999999999996 \<noteq> Num (of_int \<lfloor>10 ^ 16 :: real\<rfloor> + 1 / 2 - 8 / 2)"
proof -
  have x: "Math_floor (Num (2 ^ 52)) = Num 4503599627370496"
    and y: "Math_floor (Num (10 ^ 16)) = Num 10000000000000000"
    by simp_all
  have "priv_getAnnotationBBox mirror None (Num (2 ^ 52), Num (10 ^ 16)) False =
     \<lparr>r_x = Num 4503599627370492, r_y = Num 9999999999999996,
      r_width = Num 8, r_height = Num 8\<rparr>"
    by (simp only: priv_getAnnotationBBox_def Let_def option.case fst_conv snd_conv if_False x y
        add_half_x add_half_y annotationSizeRegular_def half_size sub_three_x sub_one_x
        sub_three_y sub_one_y regular_side [unfolded annotationSizeRegular_def])
  then show ?thesis
    by simp
qed

section \<open>The structural primitives\<close>

lemma indexOfFrom_neg: "0 \<le> i \<Longrightarrow> (indexOfFrom xs x i < 0) = (x \<notin> set xs)"
  by (induction xs arbitrary: i) auto

lemma indexOf_neg: "(indexOf xs x < 0) = (x \<notin> set xs)"
  by (simp add: indexOf_def indexOfFrom_neg)

lemma indexOfFrom_split:
  "x \<in> set xs \<Longrightarrow> indexOfFrom xs x i = i + int (length (takeWhile (\<lambda>y. y \<noteq> x) xs))"
  by (induction xs arbitrary: i) auto

lemma indexOf_split:
  "x \<in> set xs \<Longrightarrow> nat (indexOf xs x) = length (takeWhile (\<lambda>y. y \<noteq> x) xs)"
  by (simp add: indexOf_def indexOfFrom_split)

lemma length_takeWhile_neq: "x \<in> set xs \<Longrightarrow> length (takeWhile (\<lambda>y. y \<noteq> x) xs) < length xs"
  by (induction xs) auto

lemma indexOf_less: "x \<in> set xs \<Longrightarrow> indexOf xs x < int (length xs)"
  using length_takeWhile_neq [of x xs]
  by (simp add: indexOf_def indexOfFrom_split)

lemma take_indexOf: "x \<in> set xs \<Longrightarrow> take (nat (indexOf xs x)) xs = takeWhile (\<lambda>y. y \<noteq> x) xs"
  using takeWhile_eq_take [of "\<lambda>y. y \<noteq> x" xs] by (simp add: indexOf_split)

lemma drop_indexOf: "x \<in> set xs \<Longrightarrow> drop (nat (indexOf xs x)) xs = dropWhile (\<lambda>y. y \<noteq> x) xs"
  using dropWhile_eq_drop [of "\<lambda>y. y \<noteq> x" xs] by (simp add: indexOf_split)

lemma drop_Suc_indexOf:
  "x \<in> set xs \<Longrightarrow> drop (Suc (nat (indexOf xs x))) xs = tl (dropWhile (\<lambda>y. y \<noteq> x) xs)"
  using drop_indexOf [of x xs] by (simp add: drop_Suc drop_tl)

lemma remove1_split: "remove1 x xs = takeWhile (\<lambda>y. y \<noteq> x) xs @ tl (dropWhile (\<lambda>y. y \<noteq> x) xs)"
  by (induction xs) auto

lemma childList_mem:
  "r \<in> set (childList s this) \<Longrightarrow> \<exists>es. e_editors (heap s this) = Some es \<and> r \<in> set es"
  by (cases "e_editors (heap s this)") (simp_all add: childList_def)

lemma insertEditor_append:
  assumes "e_parentEditor (heap s editor) = None"
  shows "\<exists>s'. insertEditor this editor None s = Inr s' \<and> childList s' this = childList s this @ [editor] \<and>
     e_parentEditor (heap s' editor) = Some this"
  using assms
  by (auto simp: insertEditor_def childList_def modify_def Let_def split: option.splits)

lemma insertEditor_before:
  assumes "e_parentEditor (heap s editor) = None" "r \<in> set (childList s this)"
  shows "\<exists>s'. insertEditor this editor (Some r) s = Inr s' \<and>
     childList s' this = takeWhile (\<lambda>y. y \<noteq> r) (childList s this) @ editor # dropWhile (\<lambda>y. y \<noteq> r) (childList s this) \<and>
     e_parentEditor (heap s' editor) = Some this"
proof -
  from assms(2) obtain es where es: "e_editors (heap s this) = Some es" "r \<in> set es"
    using childList_mem by blast
  show ?thesis using assms(1) es indexOf_less [OF es(2)]
    by (auto simp: insertEditor_def childList_def modify_def Let_def indexOf_neg take_indexOf drop_indexOf)
qed

lemma removeEditor_ok:
  assumes "editor \<in> set (childList s this)"
  shows "\<exists>s'. removeEditor this editor s = Inr s' \<and> childList s' this = remove1 editor (childList s this) \<and>
     e_parentEditor (heap s' editor) = None"
proof -
  from assms obtain es where es: "e_editors (heap s this) = Some es" "editor \<in> set es"
    using childList_mem by blast
  show ?thesis using es
    by (auto simp: removeEditor_def childList_def modify_def Let_def indexOf_neg take_indexOf
        drop_Suc_indexOf remove1_split)
qed

lemma insertEditor_has_parent:
  assumes "e_parentEditor (heap s editor) \<noteq> None"
  shows "\<exists>err. insertEditor this editor ref s = Inl err"
  using assms by (auto simp: insertEditor_def split: option.splits sum.splits)

lemma insertEditor_unknown_ref:
  assumes "r \<notin> set (childList s this)"
  shows "insertEditor this editor (Some r) s =
     Inl (if e_editors (heap s this) = None then TypeError else UnknownReferenceEditor)"
  using assms by (auto simp: insertEditor_def childList_def indexOf_neg split: option.splits)

lemma removeEditor_unknown:
  assumes "editor \<notin> set (childList s this)"
  shows "removeEditor this editor s =
     Inl (if e_editors (heap s this) = None then TypeError else UnknownEditor)"
  using assms by (auto simp: removeEditor_def childList_def indexOf_neg split: option.splits)

text \<open>
  C8. \<open>insertEditor\<close> ends in an error when the editor already has a parent editor, and when
  the reference editor is given but is not among the sub editors of \<open>this\<close> (an
  \<open>Error("Unknown reference editor.")\<close>, or the language's \<open>TypeError\<close> when \<open>this\<close> has no array
  of sub editors yet). \<open>removeEditor\<close> ends in an error when the editor is not among the sub
  editors. Otherwise \<open>insertEditor\<close> appends the editor (no reference), or puts it
  directly in front of the first occurrence of the reference, and sets its parent editor;
  \<open>removeEditor\<close> takes the editor out of the array and clears its parent editor.
\<close>

theorem child_primitives:
  "(e_parentEditor (heap s editor) \<noteq> None \<longrightarrow>
      (\<exists>err. insertEditor this editor referenceEditor s = Inl err)) \<and>
   (r \<notin> set (childList s this) \<longrightarrow>
      insertEditor this editor (Some r) s =
        Inl (if e_editors (heap s this) = None then TypeError else UnknownReferenceEditor)) \<and>
   (editor \<notin> set (childList s this) \<longrightarrow>
      removeEditor this editor s =
        Inl (if e_editors (heap s this) = None then TypeError else UnknownEditor)) \<and>
   (e_parentEditor (heap s editor) = None \<longrightarrow>
      (\<exists>s'. insertEditor this editor None s = Inr s' \<and>
            childList s' this = childList s this @ [editor] \<and>
            e_parentEditor (heap s' editor) = Some this)) \<and>
   (e_parentEditor (heap s editor) = None \<and> r \<in> set (childList s this) \<longrightarrow>
      (\<exists>s' before after.
            insertEditor this editor (Some r) s = Inr s' \<and>
            childList s this = before @ r # after \<and> r \<notin> set before \<and>
            childList s' this = before @ editor # r # after \<and>
            e_parentEditor (heap s' editor) = Some this)) \<and>
   (editor \<in> set (childList s this) \<longrightarrow>
      (\<exists>s'. removeEditor this editor s = Inr s' \<and>
            childList s' this = remove1 editor (childList s this) \<and>
            e_parentEditor (heap s' editor) = None))"
proof (intro conjI impI)
  assume "e_parentEditor (heap s editor) \<noteq> None"
  then show "\<exists>err. insertEditor this editor referenceEditor s = Inl err"
    by (rule insertEditor_has_parent)
next
  assume "r \<notin> set (childList s this)"
  then show "insertEditor this editor (Some r) s =
      Inl (if e_editors (heap s this) = None then TypeError else UnknownReferenceEditor)"
    by (rule insertEditor_unknown_ref)
next
  assume "editor \<notin> set (childList s this)"
  then show "removeEditor this editor s =
      Inl (if e_editors (heap s this) = None then TypeError else UnknownEditor)"
    by (rule removeEditor_unknown)
next
  assume "e_parentEditor (heap s editor) = None"
  then show "\<exists>s'. insertEditor this editor None s = Inr s' \<and>
      childList s' this = childList s this @ [editor] \<and>
      e_parentEditor (heap s' editor) = Some this"
    by (rule insertEditor_append)
next
  assume a: "e_parentEditor (heap s editor) = None \<and> r \<in> set (childList s this)"
  then obtain before after where
    sp: "childList s this = before @ r # after" "r \<notin> set before"
    using split_list_first [of r "childList s this"] by blast
  have tw: "takeWhile (\<lambda>y. y \<noteq> r) (before @ r # after) = before"
    using sp(2) by (induction before) auto
  have dw: "dropWhile (\<lambda>y. y \<noteq> r) (before @ r # after) = r # after"
    using sp(2) by (induction before) auto
  from a insertEditor_before [of s editor r this] obtain s' where
    "insertEditor this editor (Some r) s = Inr s'"
    "childList s' this = takeWhile (\<lambda>y. y \<noteq> r) (childList s this) @
        editor # dropWhile (\<lambda>y. y \<noteq> r) (childList s this)"
    "e_parentEditor (heap s' editor) = Some this"
    by blast
  then show "\<exists>s' before after.
      insertEditor this editor (Some r) s = Inr s' \<and>
      childList s this = before @ r # after \<and> r \<notin> set before \<and>
      childList s' this = before @ editor # r # after \<and>
      e_parentEditor (heap s' editor) = Some this"
    using sp tw dw by auto
next
  assume "editor \<in> set (childList s this)"
  then show "\<exists>s'. removeEditor this editor s = Inr s' \<and>
      childList s' this = remove1 editor (childList s this) \<and>
      e_parentEditor (heap s' editor) = None"
    by (rule removeEditor_ok)
qed

lemma exampleTree_simps:
  "childList exampleTree 10 = [11, 12]"
  "e_editors (heap exampleTree 10) = Some [11, 12]"
  "e_parentEditor (heap exampleTree 11) = Some 10"
  "e_parentEditor (heap exampleTree 13) = None"
  by (simp_all add: exampleTree_def childList_def newEditor_def)

theorem child_primitives_witness:
  "(\<exists>err. insertEditor 10 11 None exampleTree = Inl err) \<and>
   insertEditor 10 13 (Some 7) exampleTree = Inl UnknownReferenceEditor \<and>
   removeEditor 10 13 exampleTree = Inl UnknownEditor \<and>
   (\<exists>s'. insertEditor 10 13 None exampleTree = Inr s' \<and> childList s' 10 = [11, 12, 13] \<and>
      e_parentEditor (heap s' 13) = Some 10) \<and>
   (\<exists>s'. insertEditor 10 13 (Some 12) exampleTree = Inr s' \<and> childList s' 10 = [11, 13, 12] \<and>
      e_parentEditor (heap s' 13) = Some 10) \<and>
   (\<exists>s'. removeEditor 10 11 exampleTree = Inr s' \<and> childList s' 10 = [12] \<and>
      e_parentEditor (heap s' 11) = None)"
  using child_primitives [of exampleTree 11 10 None 7]
    child_primitives [of exampleTree 13 10 None 7]
    child_primitives [of exampleTree 13 10 None 12]
  by (auto simp: exampleTree_simps Cons_eq_append_conv)

section \<open>Opening an editor\<close>

lemmas eval_defs =
  exampleScene_def exampleRegistry_def emptyState_def exports_def
  isAttached_def nodeAt_def getEditor_def createEditor_def editorClassOf_def getTypeId_def
  getParent_def getNext_def insertEditor_def removeEditor_def modify_def newEditor_def
  getParentEditor_def getEditors_def childList_def indexOf_def Let_def

lemma openEditor_attached:
  assumes "isAttached scene element" "getEditor s element = Some e"
  shows "openEditor Editors scene s element = Inr (Some e, s)"
  using assms by simp

lemma openEditor_result:
  assumes "openEditor Editors scene s element = Inr (Some e, s')"
  shows "isAttached scene element \<and> getEditor s' element = Some e"
  using assms
  by (auto simp: getEditor_def split: if_splits option.splits prod.splits sum.splits)

lemma afterOpenB_eq:
  "openEditor exampleRegistry exampleScene emptyState [1] = Inr (Some 0, afterOpenB)"
  by (simp add: afterOpenB_def) (simp add: eval_defs)

text \<open>
  C2. On an attached element that carries an editor, \<open>openEditor\<close> returns that editor and
  the store as it is: no editor, no link between editors and no attachment slot changes.
  In particular a call of \<open>openEditor\<close> that returned an editor returns the same editor when
  repeated, and repeating it changes nothing.
\<close>

theorem openEditor_idempotent:
  "(isAttached scene element \<and> getEditor s element = Some e \<longrightarrow>
      openEditor Editors scene s element = Inr (Some e, s)) \<and>
   (openEditor Editors scene s element = Inr (Some e, s') \<longrightarrow>
      openEditor Editors scene s' element = Inr (Some e, s'))"
proof (intro conjI impI)
  assume "isAttached scene element \<and> getEditor s element = Some e"
  then show "openEditor Editors scene s element = Inr (Some e, s)"
    using openEditor_attached by blast
next
  assume "openEditor Editors scene s element = Inr (Some e, s')"
  then have "isAttached scene element \<and> getEditor s' element = Some e"
    by (rule openEditor_result)
  then show "openEditor Editors scene s' element = Inr (Some e, s')"
    using openEditor_attached by blast
qed

theorem openEditor_idempotent_witness:
  "isAttached exampleScene [1] \<and> getEditor afterOpenB [1] = Some 0 \<and>
   openEditor exampleRegistry exampleScene emptyState [1] = Inr (Some 0, afterOpenB) \<and>
   openEditor exampleRegistry exampleScene afterOpenB [1] = Inr (Some 0, afterOpenB)"
  using openEditor_idempotent [where scene = exampleScene and element = "[1]" and s = emptyState
      and e = 0 and Editors = exampleRegistry and s' = afterOpenB]
    openEditor_idempotent [where scene = exampleScene and element = "[1]" and s = afterOpenB
      and e = 0 and Editors = exampleRegistry and s' = afterOpenB]
    afterOpenB_eq
  by (simp add: afterOpenB_def) (simp add: eval_defs)

section \<open>Hit testing\<close>

lemma firstHit_Cons:
  "firstHit f (x # xs) =
     (if fst (f x) = None then (fst (firstHit f xs), snd (f x) @ snd (firstHit f xs)) else f x)"
  by (cases "f x"; cases "fst (f x)"; cases "firstHit f xs") auto

lemma firstHit_none:
  "(\<And>x. x \<in> set xs \<Longrightarrow> fst (f x) = None) \<Longrightarrow>
     firstHit f xs = (None, concat (map (\<lambda>x. snd (f x)) xs))"
  by (induction xs) (simp_all add: firstHit_Cons del: firstHit.simps(2))

lemma firstHit_hit:
  "(\<And>x. x \<in> set xs \<Longrightarrow> fst (f x) = None) \<Longrightarrow> fst (f y) = Some r \<Longrightarrow>
     firstHit f (xs @ y # ys) = (Some r, concat (map (\<lambda>x. snd (f x)) xs) @ snd (f y))"
proof (induction xs)
  case Nil
  then show ?case by (cases "f y") (simp add: firstHit_Cons del: firstHit.simps(2))
next
  case (Cons a xs)
  then show ?case by (simp add: firstHit_Cons del: firstHit.simps(2))
qed

lemma getPartInfoAt_unfold:
  "getPartInfoAt env t =
     (case firstHit (getPartInfoAt env) (rev (subEditors t)) of
        (Some result, tr) \<Rightarrow> (Some result, tr)
      | (None, tr) \<Rightarrow> (case selfTest env (et_this t) of (r, tr') \<Rightarrow> (r, tr @ tr')))"
  by (cases t) (simp only: getPartInfoAt.simps subEditors_def etree.sel)

lemma hit_child:
  assumes "subEditors t = before @ c # after"
    and "\<And>x. x \<in> set after \<Longrightarrow> fst (getPartInfoAt env x) = None"
    and "fst (getPartInfoAt env c) = Some r"
  shows "getPartInfoAt env t =
      (Some r, concat (map (\<lambda>x. snd (getPartInfoAt env x)) (rev after)) @ snd (getPartInfoAt env c))"
proof -
  have "firstHit (getPartInfoAt env) (rev after @ c # rev before) =
      (Some r, concat (map (\<lambda>x. snd (getPartInfoAt env x)) (rev after)) @ snd (getPartInfoAt env c))"
    using assms(2,3) by (intro firstHit_hit) auto
  then show ?thesis
    by (subst getPartInfoAt_unfold) (simp add: assms(1))
qed

lemma hit_self:
  assumes "\<And>x. x \<in> set (subEditors t) \<Longrightarrow> fst (getPartInfoAt env x) = None"
  shows "getPartInfoAt env t =
      (fst (selfTest env (et_this t)),
       concat (map (\<lambda>x. snd (getPartInfoAt env x)) (rev (subEditors t))) @ snd (selfTest env (et_this t)))"
proof -
  have "firstHit (getPartInfoAt env) (rev (subEditors t)) =
      (None, concat (map (\<lambda>x. snd (getPartInfoAt env x)) (rev (subEditors t))))"
    using assms by (intro firstHit_none) auto
  then show ?thesis
    by (subst getPartInfoAt_unfold) (simp add: split_beta)
qed

lemma selfTest_rejected:
  "h_acceptor env = Some acc \<Longrightarrow> \<not> acc a \<Longrightarrow> selfTest env a = (None, [AcceptorCalled a])"
  by (simp add: selfTest_def)

lemma selfTest_no_part: "h_getPartInfoAt env a = None \<Longrightarrow> fst (selfTest env a) = None"
  by (simp add: selfTest_def Let_def split: option.splits)

lemma no_part_no_hit:
  "(\<And>a. a \<in> set (nodes t) \<Longrightarrow> h_getPartInfoAt env a = None) \<Longrightarrow> fst (getPartInfoAt env t) = None"
proof (induction t)
  case (Editor a es)
  have "fst (getPartInfoAt env x) = None" if "x \<in> set (subEditors (Editor a es))" for x
  proof -
    from that obtain xs where "es = Some xs" "x \<in> set xs" by (cases es) (auto simp: subEditors_def)
    then show ?thesis using Editor.IH [of xs x] Editor.prems by (auto)
  qed
  then have "getPartInfoAt env (Editor a es) = (fst (selfTest env a), concat (map (\<lambda>x. snd (getPartInfoAt env x)) (rev (subEditors (Editor a es)))) @ snd (selfTest env a))"
    using hit_self [of "Editor a es" env] by simp
  then show ?case using selfTest_no_part [of env a] Editor.prems by simp
qed

lemma firstHit_some:
  "fst (firstHit f xs) = Some r \<Longrightarrow> \<exists>x \<in> set xs. fst (f x) = Some r"
  by (induction xs) (auto simp add: firstHit_Cons simp del: firstHit.simps(2) split: if_splits)

lemma nodes_sub: "x \<in> set (subEditors t) \<Longrightarrow> set (nodes x) \<subseteq> set (nodes t)"
  by (cases t) (auto simp: subEditors_def split: option.splits)

lemma nodes_this: "et_this t \<in> set (nodes t)"
  by (cases t) simp

lemma hit_is_self_hit:
  "fst (getPartInfoAt env t) = Some r \<Longrightarrow> \<exists>a \<in> set (nodes t). fst (selfTest env a) = Some r"
proof (induction t)
  case (Editor a es)
  let ?t = "Editor a es"
  show ?case
  proof (cases "fst (firstHit (getPartInfoAt env) (rev (subEditors ?t)))")
    case None
    then have "fst (getPartInfoAt env ?t) = fst (selfTest env a)"
      by (subst getPartInfoAt_unfold) (simp add: split_beta)
    then show ?thesis using Editor.prems by auto
  next
    case (Some r')
    then have "fst (getPartInfoAt env ?t) = Some r'"
      by (subst getPartInfoAt_unfold) (simp add: split_beta)
    then have "r' = r" using Editor.prems by simp
    with Some obtain x where x: "x \<in> set (subEditors ?t)" "fst (getPartInfoAt env x) = Some r"
      using firstHit_some [of "getPartInfoAt env" "rev (subEditors ?t)" r] by auto
    then obtain xs where xs: "es = Some xs" "x \<in> set xs"
      by (cases es) (auto simp: subEditors_def)
    then obtain b where "b \<in> set (nodes x)" "fst (selfTest env b) = Some r"
      using Editor.IH [of xs x] x(2) by auto
    then show ?thesis using nodes_sub [OF x(1)] by blast
  qed
qed

text \<open>
  C4. The order of the sub editors is the order of the array \<open>_editors\<close> (an editor that
  \<open>insertEditor\<close> puts in front of a reference stands before it, whenever it was
  inserted). For every tree of editors:
  \<^item> the sub editors are walked from the last to the first; the first one with a hit ends
    the walk: its hit is returned, and the probes made are those of the sub editors after
    it, last first, and its own, so neither an earlier sub editor nor the editor itself is
    tested;
  \<^item> when no sub editor has a hit, all of them are probed, last first, before the editor
    tests itself, and the result is that of the test of the editor itself;
  \<^item> of two sub editors that both have a hit the one later in the array wins, when none
    after it has a hit;
  \<^item> an editor the acceptor turns down has no hit of its own, and is asked only after all
    its sub editors are probed;
  \<^item> when no editor of the tree has a part at the location the result is \<open>null\<close>;
  \<^item> every hit is the hit of some editor of the tree that the acceptor accepts and whose
    box contains the location.
\<close>

theorem hit_test_order:
  "(subEditors t = before @ c # after \<and>
    (\<forall>x \<in> set after. fst (getPartInfoAt env x) = None) \<and>
    fst (getPartInfoAt env c) = Some r \<longrightarrow>
      getPartInfoAt env t =
        (Some r, concat (map (\<lambda>x. snd (getPartInfoAt env x)) (rev after)) @
                 snd (getPartInfoAt env c))) \<and>
   ((\<forall>x \<in> set (subEditors t). fst (getPartInfoAt env x) = None) \<longrightarrow>
      getPartInfoAt env t =
        (fst (selfTest env (et_this t)),
         concat (map (\<lambda>x. snd (getPartInfoAt env x)) (rev (subEditors t))) @
         snd (selfTest env (et_this t)))) \<and>
   (subEditors t = before @ lower # between @ upper # after \<and>
    fst (getPartInfoAt env lower) = Some rlower \<and> fst (getPartInfoAt env upper) = Some rupper \<and>
    (\<forall>x \<in> set after. fst (getPartInfoAt env x) = None) \<longrightarrow>
      fst (getPartInfoAt env t) = Some rupper) \<and>
   (h_acceptor env = Some acceptor \<and> \<not> acceptor (et_this t) \<and>
    (\<forall>x \<in> set (subEditors t). fst (getPartInfoAt env x) = None) \<longrightarrow>
      getPartInfoAt env t =
        (None, concat (map (\<lambda>x. snd (getPartInfoAt env x)) (rev (subEditors t))) @
               [AcceptorCalled (et_this t)])) \<and>
   ((\<forall>a \<in> set (nodes t). h_getPartInfoAt env a = None) \<longrightarrow>
      fst (getPartInfoAt env t) = None) \<and>
   (fst (getPartInfoAt env t) = Some r \<longrightarrow>
      (\<exists>a \<in> set (nodes t). fst (selfTest env a) = Some r))"
proof (intro conjI impI)
  assume a: "subEditors t = before @ c # after \<and>
    (\<forall>x \<in> set after. fst (getPartInfoAt env x) = None) \<and>
    fst (getPartInfoAt env c) = Some r"
  show "getPartInfoAt env t =
        (Some r, concat (map (\<lambda>x. snd (getPartInfoAt env x)) (rev after)) @
                 snd (getPartInfoAt env c))"
  proof (rule hit_child)
    show "subEditors t = before @ c # after" using a by blast
    show "fst (getPartInfoAt env c) = Some r" using a by blast
    show "fst (getPartInfoAt env x) = None" if "x \<in> set after" for x using a that by blast
  qed
next
  assume a: "\<forall>x \<in> set (subEditors t). fst (getPartInfoAt env x) = None"
  show "getPartInfoAt env t =
        (fst (selfTest env (et_this t)),
         concat (map (\<lambda>x. snd (getPartInfoAt env x)) (rev (subEditors t))) @
         snd (selfTest env (et_this t)))"
  proof (rule hit_self)
    show "fst (getPartInfoAt env x) = None" if "x \<in> set (subEditors t)" for x using a that by blast
  qed
next
  assume a: "subEditors t = before @ lower # between @ upper # after \<and>
    fst (getPartInfoAt env lower) = Some rlower \<and> fst (getPartInfoAt env upper) = Some rupper \<and>
    (\<forall>x \<in> set after. fst (getPartInfoAt env x) = None)"
  have "getPartInfoAt env t =
        (Some rupper, concat (map (\<lambda>x. snd (getPartInfoAt env x)) (rev after)) @
                  snd (getPartInfoAt env upper))"
  proof (rule hit_child)
    show "subEditors t = (before @ lower # between) @ upper # after" using a by simp
    show "fst (getPartInfoAt env upper) = Some rupper" using a by blast
    show "fst (getPartInfoAt env x) = None" if "x \<in> set after" for x using a that by blast
  qed
  then show "fst (getPartInfoAt env t) = Some rupper" by simp
next
  assume a: "h_acceptor env = Some acceptor \<and> \<not> acceptor (et_this t) \<and>
    (\<forall>x \<in> set (subEditors t). fst (getPartInfoAt env x) = None)"
  have st: "selfTest env (et_this t) = (None, [AcceptorCalled (et_this t)])"
  proof (rule selfTest_rejected)
    show "h_acceptor env = Some acceptor" using a by blast
    show "\<not> acceptor (et_this t)" using a by blast
  qed
  have "getPartInfoAt env t =
        (fst (selfTest env (et_this t)),
         concat (map (\<lambda>x. snd (getPartInfoAt env x)) (rev (subEditors t))) @
         snd (selfTest env (et_this t)))"
  proof (rule hit_self)
    show "fst (getPartInfoAt env x) = None" if "x \<in> set (subEditors t)" for x using a that by blast
  qed
  then show "getPartInfoAt env t =
        (None, concat (map (\<lambda>x. snd (getPartInfoAt env x)) (rev (subEditors t))) @
               [AcceptorCalled (et_this t)])"
    by (simp only: st fst_conv snd_conv)
next
  assume a: "\<forall>a \<in> set (nodes t). h_getPartInfoAt env a = None"
  show "fst (getPartInfoAt env t) = None"
  proof (rule no_part_no_hit)
    show "h_getPartInfoAt env a = None" if "a \<in> set (nodes t)" for a using a that by blast
  qed
next
  assume "fst (getPartInfoAt env t) = Some r"
  then show "\<exists>a \<in> set (nodes t). fst (selfTest env a) = Some r"
    by (rule hit_is_self_hit)
qed

lemmas hit_defs = exampleEnv_def exampleEditors_def selfTest_def subEditors_def Let_def

theorem hit_test_order_witness:
  "getPartInfoAt exampleEnv exampleEditors =
     (Some 20, [AcceptorCalled 3, AcceptorCalled 2, BBoxTested 2, PartLookedUp 2]) \<and>
   fst (getPartInfoAt exampleEnv (Editor 1 None)) = Some 10 \<and>
   fst (getPartInfoAt exampleEnv (Editor 2 None)) = Some 20 \<and>
   fst (getPartInfoAt exampleEnv (Editor 3 None)) = None \<and>
   getPartInfoAt exampleEnv (Editor 3 (Some [Editor 3 None, Editor 0 None])) =
     (None, [AcceptorCalled 0, BBoxTested 0, AcceptorCalled 3, AcceptorCalled 3]) \<and>
   getPartInfoAt (exampleEnv\<lparr>h_getPartInfoAt := (\<lambda>a. None)\<rparr>) exampleEditors =
     (None, [AcceptorCalled 3, AcceptorCalled 2, BBoxTested 2, PartLookedUp 2,
             AcceptorCalled 1, BBoxTested 1, PartLookedUp 1, AcceptorCalled 0, BBoxTested 0]) \<and>
   (\<exists>a \<in> set (nodes exampleEditors). fst (selfTest exampleEnv a) = Some 20)"
  using hit_test_order [where t = exampleEditors and before = "[Editor 1 None]" and c = "Editor 2 None"
      and after = "[Editor 3 None]" and env = exampleEnv and r = 20 and lower = "Editor 1 None"
      and between = "[]" and upper = "Editor 2 None" and rlower = 10 and rupper = 20
      and acceptor = "\<lambda>a. a \<noteq> 3"]
    hit_test_order [where t = "Editor 3 (Some [Editor 3 None, Editor 0 None])"
      and env = exampleEnv and acceptor = "\<lambda>a. a \<noteq> 3"]
    hit_test_order [where t = exampleEditors
      and env = "exampleEnv\<lparr>h_getPartInfoAt := (\<lambda>a. None)\<rparr>"]
  by (simp add: hit_defs)

section \<open>Opening keeps the editors in step with the scene\<close>

lemma attached_simps [simp]:
  "nextId (attached s pe ed L x) = nextId s"
  "slot (attached s pe ed L x) = (slot s)(x \<mapsto> ed)"
  "log (attached s pe ed L x) = log s"
  "e_element (heap (attached s pe ed L x) e) = e_element (heap s e)"
  "e_parentEditor (heap (attached s pe ed L x) e) = (if e = ed then Some pe else e_parentEditor (heap s e))"
  "childList (attached s pe ed L x) e = (if e = pe then L else childList s e)"
  by (simp_all add: attached_def modify_def childList_def)

lemma insertEditor_attached:
  assumes "e_parentEditor (heap s ed) = None"
    and "ref = None \<or> (\<exists>r. ref = Some r \<and> r \<in> set (childList s pe))"
  shows "\<exists>before after. childList s pe = before @ after \<and>
      (case ref of None \<Rightarrow> after = [] | Some r \<Rightarrow> r \<notin> set before \<and> (\<exists>tl. after = r # tl)) \<and>
      insertEditor pe ed ref s = Inr (modify ed (\<lambda>e. e\<lparr>e_parentEditor := Some pe\<rparr>)
        (modify pe (\<lambda>e. e\<lparr>e_editors := Some (before @ ed # after)\<rparr>) s))"
proof (cases ref)
  case None
  then show ?thesis using assms(1)
    by (intro exI [of _ "childList s pe"] exI [of _ "[]"])
       (auto simp: insertEditor_def childList_def Let_def split: option.splits)
next
  case (Some r)
  with assms(2) have r: "r \<in> set (childList s pe)" by simp
  then obtain es where es: "e_editors (heap s pe) = Some es" "r \<in> set es"
    using childList_mem by blast
  have "r \<notin> set (takeWhile (\<lambda>y. y \<noteq> r) es)" by (auto dest: set_takeWhileD)
  moreover have "\<exists>tl. dropWhile (\<lambda>y. y \<noteq> r) es = r # tl"
    using es(2) by (induction es) auto
  moreover have "es = takeWhile (\<lambda>y. y \<noteq> r) es @ dropWhile (\<lambda>y. y \<noteq> r) es" by simp
  ultimately show ?thesis using Some assms(1) es indexOf_less [OF es(2)]
    by (intro exI [of _ "takeWhile (\<lambda>y. y \<noteq> r) es"] exI [of _ "dropWhile (\<lambda>y. y \<noteq> r) es"])
       (auto simp: insertEditor_def childList_def Let_def indexOf_neg take_indexOf drop_indexOf)
qed

lemma ancestor_length: "ancestor q x \<Longrightarrow> length q < length x"
  by (induction x) auto

lemma ancestor_irrefl: "\<not> ancestor x x"
  using ancestor_length [of x x] by auto

lemma ancestor_trans: "ancestor a b \<Longrightarrow> ancestor b c \<Longrightarrow> ancestor a c"
  by (induction c) auto

lemma ancestor_comparable: "ancestor a x \<Longrightarrow> ancestor b x \<Longrightarrow> a = b \<or> ancestor a b \<or> ancestor b a"
  by (induction x) auto

lemma isAttached_tl: "isAttached scene (i # q) \<Longrightarrow> isAttached scene q"
  by (auto simp: isAttached_def nodeAt_Cons split: option.splits)

lemma isAttached_ancestor: "ancestor q x \<Longrightarrow> isAttached scene x \<Longrightarrow> isAttached scene q"
  by (induction x) (auto dest: isAttached_tl)

lemma nearestEditor_cong:
  "(\<And>a. ancestor a x \<Longrightarrow> slot s' a = slot s a) \<Longrightarrow> nearestEditor s' x = nearestEditor s x"
  by (induction x) (auto split: option.splits)

lemma nearestEditor_between:
  "ancestor q x \<Longrightarrow> (\<And>a. ancestor a x \<Longrightarrow> ancestor q a \<Longrightarrow> slot s a = None) \<Longrightarrow>
     slot s q = Some pe \<Longrightarrow> nearestEditor s x = Some pe"
proof (induction x)
  case Nil
  then show ?case by simp
next
  case (Cons i x)
  show ?case
  proof (cases "q = x")
    case True
    then show ?thesis using Cons.prems(3) by simp
  next
    case False
    then have sq: "ancestor q x" using Cons.prems(1) by simp
    have "slot s x = None" using Cons.prems(2) [of x] sq by simp
    moreover have "nearestEditor s x = Some pe"
    proof (rule Cons.IH [OF sq _ Cons.prems(3)])
      fix a assume a: "ancestor a x" "ancestor q a"
      then show "slot s a = None" using Cons.prems(2) [of a] by simp
    qed
    ultimately show ?thesis by simp
  qed
qed

lemma nearestEditor_none:
  "(\<And>a. ancestor a x \<Longrightarrow> slot s a = None) \<Longrightarrow> nearestEditor s x = None"
  by (induction x) (auto split: option.splits)

lemma loose_childList: "loose s ed x \<Longrightarrow> childList s ed = []"
  by (simp add: loose_def childList_def)

lemma loose_not_child:
  assumes "linked s" "loose s ed x" "p < nextId s"
  shows "ed \<notin> set (childList s p)"
proof
  assume "ed \<in> set (childList s p)"
  then have "e_parentEditor (heap s ed) = Some p"
    using assms(1,3) unfolding linked_def by blast
  then show False using assms(2) unfolding loose_def by simp
qed

lemma child_element_slotted:
  assumes "slotted scene s" "p < nextId s" "c \<in> set (childList s p)"
  shows "slot s (e_element (heap s c)) = Some c"
  using assms unfolding slotted_def by blast

lemma no_slotted_descendant:
  assumes "mirrored Editors scene s" "registered Editors scene x" "slot s x = None" "ancestor x y"
  shows "slot s y = None"
proof (rule ccontr)
  assume "slot s y \<noteq> None"
  then have "slot s x \<noteq> None"
    using assms(1,2,4) unfolding mirrored_def by blast
  then show False using assms(3) by simp
qed

lemma linked_attached:
  assumes "linked s" "slotted scene s" "loose s ed x" "slot s q = Some pe"
    and "childList s pe = before @ after"
  shows "linked (attached s pe ed (before @ ed # after) x)"
proof -
  have pe: "pe < nextId s" "pe \<noteq> ed"
    using assms(2,3,4) unfolding slotted_def loose_def by auto
  have ed: "ed < nextId s" "e_parentEditor (heap s ed) = None"
    using assms(3) unfolding loose_def by auto
  have nc: "ed \<notin> set (childList s p)" if "p < nextId s" for p
    using loose_not_child [OF assms(1,3) that] .
  have l1: "c < nextId s \<and> e_parentEditor (heap s c) = Some p"
    if "p < nextId s" "c \<in> set (childList s p)" for p c
    using assms(1) that unfolding linked_def by blast
  have l2: "p < nextId s \<and> c \<in> set (childList s p)"
    if "c < nextId s" "e_parentEditor (heap s c) = Some p" for p c
    using assms(1) that unfolding linked_def by blast
  have l3: "distinct (childList s p)" if "p < nextId s" for p
    using assms(1) that unfolding linked_def by blast
  show ?thesis unfolding linked_def
  proof (intro conjI allI impI)
    fix p c
    assume a: "p < nextId (attached s pe ed (before @ ed # after) x) \<and>
      c \<in> set (childList (attached s pe ed (before @ ed # after) x) p)"
    show "c < nextId (attached s pe ed (before @ ed # after) x)"
      using a l1 [of p c] l1 [of pe c] ed(1) assms(5) by (auto split: if_splits)
    show "e_parentEditor (heap (attached s pe ed (before @ ed # after) x) c) = Some p"
      using a l1 [of p c] l1 [of pe c] nc [of p] assms(5) by (auto split: if_splits)
  next
    fix c p
    assume a: "c < nextId (attached s pe ed (before @ ed # after) x) \<and>
      e_parentEditor (heap (attached s pe ed (before @ ed # after) x) c) = Some p"
    show "p < nextId (attached s pe ed (before @ ed # after) x)"
      using a l2 [of c p] pe(1) by (auto split: if_splits)
    show "c \<in> set (childList (attached s pe ed (before @ ed # after) x) p)"
      using a l2 [of c p] assms(5) by (auto split: if_splits)
  next
    fix p
    assume "p < nextId (attached s pe ed (before @ ed # after) x)"
    then show "distinct (childList (attached s pe ed (before @ ed # after) x) p)"
      using l3 [of p] nc [of pe] pe(1) assms(5) by auto
  qed
qed

lemma slotted_attached:
  assumes "linked s" "slotted scene s" "loose s ed x" "slot s q = Some pe"
    and "childList s pe = before @ after" and "isAttached scene x" and "slot s x = None"
  shows "slotted scene (attached s pe ed (before @ ed # after) x)"
proof -
  have ed: "ed < nextId s" "e_element (heap s ed) = x"
    using assms(3) unfolding loose_def by auto
  have pe: "pe < nextId s"
    using assms(2,4) unfolding slotted_def by auto
  have b1: "e < nextId s \<and> e_element (heap s e) = y \<and> isAttached scene y"
    if "slot s y = Some e" for y e
    using assms(2) that unfolding slotted_def by blast
  have b2: "slot s (e_element (heap s c)) = Some c"
    if "p < nextId s" "c \<in> set (childList s p)" for p c
    using child_element_slotted [OF assms(2) that] .
  show ?thesis unfolding slotted_def
  proof (intro conjI allI impI)
    fix y e
    assume a: "slot (attached s pe ed (before @ ed # after) x) y = Some e"
    show "e < nextId (attached s pe ed (before @ ed # after) x)"
      using a b1 [of y e] ed by (auto split: if_splits)
    show "e_element (heap (attached s pe ed (before @ ed # after) x) e) = y"
      using a b1 [of y e] ed by (auto split: if_splits)
    show "isAttached scene y"
      using a b1 [of y e] assms(6) by (auto split: if_splits)
  next
    fix p c
    assume a: "p < nextId (attached s pe ed (before @ ed # after) x) \<and>
      c \<in> set (childList (attached s pe ed (before @ ed # after) x) p)"
    have "c = ed \<or> (\<exists>p'. p' < nextId s \<and> c \<in> set (childList s p'))"
      using a pe assms(5) by (auto split: if_splits)
    then show "slot (attached s pe ed (before @ ed # after) x)
        (e_element (heap (attached s pe ed (before @ ed # after) x) c)) = Some c"
    proof
      assume "c = ed"
      then show ?thesis using ed by simp
    next
      assume "\<exists>p'. p' < nextId s \<and> c \<in> set (childList s p')"
      then obtain p' where "p' < nextId s" "c \<in> set (childList s p')" by blast
      then have "slot s (e_element (heap s c)) = Some c" by (rule b2)
      then show ?thesis using assms(7) by auto
    qed
  qed
qed

lemma mirrored_attached:
  assumes "mirrored Editors scene s" "slotted scene s" "loose s ed x"
    and "registered Editors scene x" "slot s x = None"
    and "ancestor q x" "slot s q = Some pe"
    and between: "\<And>a. ancestor a x \<Longrightarrow> ancestor q a \<Longrightarrow> slot s a = None \<and> \<not> registered Editors scene a"
  shows "mirrored Editors scene (attached s pe ed L x)"
proof -
  let ?s' = "attached s pe ed L x"
  have o1: "e_parentEditor (heap s e) = nearestEditor s y" if "slot s y = Some e" for y e
    using assms(1) that unfolding mirrored_def by blast
  have o2: "slot s a \<noteq> None" if "slot s y \<noteq> None" "ancestor a y" "registered Editors scene a" for y a
    using assms(1) that unfolding mirrored_def by blast
  have nx: "nearestEditor ?s' y = nearestEditor s y" if "\<not> ancestor x y" for y
  proof (rule nearestEditor_cong)
    fix a assume "ancestor a y"
    then have "a \<noteq> x" using that by auto
    then show "slot ?s' a = slot s a" by simp
  qed
  have nd: "\<not> ancestor x y" if "slot s y \<noteq> None" for y
  proof
    assume "ancestor x y"
    then have "slot s y = None" by (rule no_slotted_descendant [OF assms(1,4,5)])
    then show False using that by simp
  qed
  have near: "nearestEditor s x = Some pe"
  proof (rule nearestEditor_between [OF assms(6) _ assms(7)])
    fix a assume "ancestor a x" "ancestor q a"
    then show "slot s a = None" using between by blast
  qed
  show ?thesis unfolding mirrored_def
  proof (intro conjI allI impI)
    fix y e
    assume a: "slot ?s' y = Some e"
    show "e_parentEditor (heap ?s' e) = nearestEditor ?s' y"
    proof (cases "y = x")
      case True
      then have "e = ed" using a by simp
      then show ?thesis using True near nx [of x] ancestor_irrefl [of x] by simp
    next
      case False
      then have sy: "slot s y = Some e" using a by simp
      then have "e \<noteq> ed" using assms(3) unfolding loose_def by auto
      then show ?thesis using o1 [OF sy] nx [of y] nd [of y] sy by simp
    qed
  next
    fix y a
    assume a: "slot ?s' y \<noteq> None \<and> ancestor a y \<and> registered Editors scene a"
    show "slot ?s' a \<noteq> None"
    proof (cases "y = x")
      case True
      then have ax: "ancestor a x" using a by simp
      from ancestor_comparable [OF ax assms(6)]
      consider "a = q" | "ancestor a q" | "ancestor q a" by blast
      then have "slot s a \<noteq> None"
      proof cases
        case 1
        then show ?thesis using assms(7) by simp
      next
        case 2
        then show ?thesis using o2 [of q a] assms(7) a by simp
      next
        case 3
        then show ?thesis using between [OF ax] a by simp
      qed
      then show ?thesis by auto
    next
      case False
      then have "slot s y \<noteq> None" using a by simp
      then have "slot s a \<noteq> None" using o2 [of y a] a by simp
      then show ?thesis by auto
    qed
  qed
qed

lemma sorted_insert_between:
  assumes "sorted_wrt (<) (xs @ ys)" "\<And>a. a \<in> set xs \<Longrightarrow> a < (y::nat)" "\<And>b. b \<in> set ys \<Longrightarrow> y < b"
  shows "sorted_wrt (<) (xs @ y # ys)"
  using assms by (auto simp: sorted_wrt_append)

lemma ordered_attached:
  assumes "ordered s" "slotted scene s" "loose s ed x" "slot s x = None"
    and "slot s q = Some pe" and "childList s pe = before @ after"
    and pos: "isChildOf q x \<Longrightarrow>
       (\<forall>c \<in> set before. isChildOf q (e_element (heap s c)) \<longrightarrow> hd (e_element (heap s c)) < hd x) \<and>
       (\<forall>c \<in> set after. isChildOf q (e_element (heap s c)) \<longrightarrow> hd x < hd (e_element (heap s c)))"
  shows "ordered (attached s pe ed (before @ ed # after) x)"
proof -
  let ?s' = "attached s pe ed (before @ ed # after) x"
  have ed: "ed < nextId s" "e_element (heap s ed) = x" "childList s ed = []" "\<And>y. slot s y \<noteq> Some ed"
    using assms(3) loose_childList [OF assms(3)] unfolding loose_def by auto
  have b1: "e < nextId s \<and> e_element (heap s e) = y" if "slot s y = Some e" for y e
    using assms(2) that unfolding slotted_def by blast
  have pe: "pe \<noteq> ed" "e_element (heap s pe) = q" using assms(5) ed(4) b1 [of q pe] by auto
  show ?thesis unfolding ordered_def
  proof (intro allI impI)
    fix p e'
    assume a: "slot ?s' p = Some e'"
    show "sorted_wrt (<) (childIndices ?s' p e')"
    proof (cases "p = x")
      case True
      then have "e' = ed" using a by simp
      then show ?thesis using ed(3) pe(1) by (simp add: childIndices_def childEditors_def)
    next
      case False
      then have sp: "slot s p = Some e'" using a by simp
      then have old: "sorted_wrt (<) (childIndices s p e')"
        using assms(1) unfolding ordered_def by blast
      show ?thesis
      proof (cases "e' = pe")
        case False
        then have "childIndices ?s' p e' = childIndices s p e'"
          by (simp add: childIndices_def childEditors_def)
        then show ?thesis using old by simp
      next
        case True
        then have pq: "p = q" using b1 [OF sp] pe(2) by simp
        show ?thesis
        proof (cases "isChildOf q x")
          case False
          then have "childIndices ?s' p e' = childIndices s p e'"
            using True pq ed(2) assms(6) by (simp add: childIndices_def childEditors_def)
          then show ?thesis using old by simp
        next
          case c: True
          let ?F = "\<lambda>l. map (\<lambda>e. hd (e_element (heap s e))) (filter (\<lambda>e. isChildOf q (e_element (heap s e))) l)"
          have new: "childIndices ?s' p e' = ?F before @ hd x # ?F after"
            using True pq ed(2) c by (simp add: childIndices_def childEditors_def)
          have old': "sorted_wrt (<) (?F before @ ?F after)"
            using old True pq assms(6) by (simp add: childIndices_def childEditors_def)
          have "sorted_wrt (<) (?F before @ hd x # ?F after)"
          proof (rule sorted_insert_between [OF old'])
            fix a assume "a \<in> set (?F before)"
            then show "a < hd x" using pos [OF c] by auto
          next
            fix b assume "b \<in> set (?F after)"
            then show "hd x < b" using pos [OF c] by auto
          qed
          then show ?thesis using new by simp
        qed
      qed
    qed
  qed
qed

text \<open>the state after the assignment to the slot when no ancestor has an editor\<close>

lemma synced_rooted:
  assumes "synced Editors scene s" "loose s ed x" "isAttached scene x"
    and "registered Editors scene x" "slot s x = None"
    and none: "\<And>a. ancestor a x \<Longrightarrow> slot s a = None \<and> \<not> registered Editors scene a"
  shows "synced Editors scene (s\<lparr>slot := (slot s)(x \<mapsto> ed)\<rparr>)"
proof -
  let ?s' = "s\<lparr>slot := (slot s)(x \<mapsto> ed)\<rparr>"
  have li: "linked s" and sl: "slotted scene s" and mi: "mirrored Editors scene s" and ord: "ordered s"
    using assms(1) unfolding synced_def by auto
  have ed: "ed < nextId s" "e_element (heap s ed) = x" "childList s ed = []" "\<And>y. slot s y \<noteq> Some ed"
      "e_parentEditor (heap s ed) = None"
    using assms(2) loose_childList [OF assms(2)] unfolding loose_def by auto
  have cl: "childList ?s' e = childList s e" for e by (simp add: childList_def)
  have "linked ?s' = linked s" by (simp add: linked_def cl)
  then have "linked ?s'" using li by simp
  moreover have "slotted scene ?s'"
    unfolding slotted_def
  proof (intro conjI allI impI)
    fix y e
    assume a: "slot ?s' y = Some e"
    have "y \<noteq> x \<Longrightarrow> e < nextId s \<and> e_element (heap s e) = y \<and> isAttached scene y"
      using a sl unfolding slotted_def by simp
    moreover have "y = x \<Longrightarrow> e = ed" using a by simp
    ultimately show "e < nextId ?s'" "e_element (heap ?s' e) = y" "isAttached scene y"
      using ed(1,2) assms(3) by (cases "y = x"; simp)+
  next
    fix p c
    assume a: "p < nextId ?s' \<and> c \<in> set (childList ?s' p)"
    then have "slot s (e_element (heap s c)) = Some c"
      using child_element_slotted [OF sl, of p c] by (simp add: cl)
    moreover from this have "e_element (heap s c) \<noteq> x" using assms(5) by auto
    ultimately show "slot ?s' (e_element (heap ?s' c)) = Some c" by simp
  qed
  moreover have "mirrored Editors scene ?s'"
  proof -
    have o1: "e_parentEditor (heap s e) = nearestEditor s y" if "slot s y = Some e" for y e
      using mi that unfolding mirrored_def by blast
    have o2: "slot s a \<noteq> None" if "slot s y \<noteq> None" "ancestor a y" "registered Editors scene a" for y a
      using mi that unfolding mirrored_def by blast
    have nx: "nearestEditor ?s' y = nearestEditor s y" if "\<not> ancestor x y" for y
    proof (rule nearestEditor_cong)
      fix a assume "ancestor a y"
      then have "a \<noteq> x" using that by auto
      then show "slot ?s' a = slot s a" by simp
    qed
    have nd: "\<not> ancestor x y" if "slot s y \<noteq> None" for y
    proof
      assume "ancestor x y"
      then have "slot s y = None" by (rule no_slotted_descendant [OF mi assms(4,5)])
      then show False using that by simp
    qed
    have near: "nearestEditor s x = None"
      using nearestEditor_none [of x s] none by blast
    show ?thesis unfolding mirrored_def
    proof (intro conjI allI impI)
      fix y e
      assume a: "slot ?s' y = Some e"
      show "e_parentEditor (heap ?s' e) = nearestEditor ?s' y"
      proof (cases "y = x")
        case True
        then have "e = ed" using a by simp
        then show ?thesis using True near nx [of x] ancestor_irrefl [of x] ed(5) by simp
      next
        case False
        then have sy: "slot s y = Some e" using a by simp
        then show ?thesis using o1 [OF sy] nx [of y] nd [of y] sy by simp
      qed
    next
      fix y a
      assume a: "slot ?s' y \<noteq> None \<and> ancestor a y \<and> registered Editors scene a"
      show "slot ?s' a \<noteq> None"
      proof (cases "y = x")
        case True
        then show ?thesis using a none [of a] by simp
      next
        case False
        then have "slot s y \<noteq> None" using a by simp
        then have "slot s a \<noteq> None" using o2 [of y a] a by simp
        then show ?thesis by auto
      qed
    qed
  qed
  moreover have "ordered ?s'"
    unfolding ordered_def
  proof (intro allI impI)
    fix p e'
    assume a: "slot ?s' p = Some e'"
    have ci: "childIndices ?s' p e' = childIndices s p e'"
      by (simp add: childIndices_def childEditors_def cl)
    show "sorted_wrt (<) (childIndices ?s' p e')"
    proof (cases "p = x")
      case True
      then have "e' = ed" using a by simp
      then show ?thesis using ed(3) by (simp add: childIndices_def childEditors_def cl)
    next
      case False
      then have "slot s p = Some e'" using a by simp
      then show ?thesis using ord ci unfolding ordered_def by simp
    qed
  qed
  ultimately show ?thesis unfolding synced_def by simp
qed

declare findReference.simps [simp del]

lemma findReference_Some:
  "findReference scene s (Some (j # q)) =
     (case slot s (j # q) of
        Some e \<Rightarrow> Some e
      | None \<Rightarrow> if Suc j < kids scene q then findReference scene s (Some (Suc j # q)) else None)"
proof -
  have n: "getNext scene (j # q) = (if Suc j < kids scene q then Some (Suc j # q) else None)"
    by (simp add: getNext_def isAttached_Cons)
  have "findReference scene s (Some (j # q)) =
      (case slot s (j # q) of
        Some e \<Rightarrow> Some e
      | None \<Rightarrow> findReference scene s (getNext scene (j # q)))"
    by (simp only: findReference.simps getEditor_def)
  also have "findReference scene s (getNext scene (j # q)) =
      (if Suc j < kids scene q then findReference scene s (Some (Suc j # q)) else None)"
    by (simp only: n if_distrib [of "findReference scene s"] findReference.simps(1))
  finally show ?thesis .
qed

lemma findReference_loop:
  "j < kids scene q \<Longrightarrow> kids scene q - Suc j = n \<Longrightarrow>
     (case findReference scene s (Some (j # q)) of
        None \<Rightarrow> (\<forall>k. j \<le> k \<and> k < kids scene q \<longrightarrow> slot s (k # q) = None)
      | Some r \<Rightarrow> (\<exists>k. j \<le> k \<and> k < kids scene q \<and> slot s (k # q) = Some r \<and>
                      (\<forall>m. j \<le> m \<and> m < k \<longrightarrow> slot s (m # q) = None)))"
proof (induction n arbitrary: j)
  case 0
  then have nk: "\<not> Suc j < kids scene q" by simp
  show ?case
  proof (cases "slot s (j # q)")
    case None
    then have "findReference scene s (Some (j # q)) = None"
      using nk by (subst findReference_Some) simp
    moreover have "slot s (k # q) = None" if "j \<le> k \<and> k < kids scene q" for k
    proof -
      have "k = j" using that nk by simp
      then show ?thesis using None by simp
    qed
    ultimately show ?thesis by simp
  next
    case (Some e)
    then have "findReference scene s (Some (j # q)) = Some e"
      by (subst findReference_Some) simp
    moreover have "j \<le> j \<and> j < kids scene q \<and> slot s (j # q) = Some e \<and>
        (\<forall>m. j \<le> m \<and> m < j \<longrightarrow> slot s (m # q) = None)"
      using Some "0.prems"(1) by auto
    ultimately show ?thesis by (simp only: option.case) blast
  qed
next
  case (Suc n)
  then have lt: "Suc j < kids scene q" and m: "kids scene q - Suc (Suc j) = n" by simp_all
  show ?case
  proof (cases "slot s (j # q)")
    case (Some e)
    then have "findReference scene s (Some (j # q)) = Some e"
      by (subst findReference_Some) simp
    moreover have "j \<le> j \<and> j < kids scene q \<and> slot s (j # q) = Some e \<and>
        (\<forall>m. j \<le> m \<and> m < j \<longrightarrow> slot s (m # q) = None)"
      using Some Suc.prems(1) by auto
    ultimately show ?thesis by (simp only: option.case) blast
  next
    case None
    then have eq: "findReference scene s (Some (j # q)) = findReference scene s (Some (Suc j # q))"
      using lt by (subst findReference_Some) simp
    show ?thesis
    proof (cases "findReference scene s (Some (Suc j # q))")
      case n: None
      then have all: "\<forall>k. Suc j \<le> k \<and> k < kids scene q \<longrightarrow> slot s (k # q) = None"
        using Suc.IH [OF lt m] by simp
      have "\<forall>k. j \<le> k \<and> k < kids scene q \<longrightarrow> slot s (k # q) = None"
      proof (intro allI impI)
        fix k assume "j \<le> k \<and> k < kids scene q"
        then show "slot s (k # q) = None"
          using None all by (cases "k = j") auto
      qed
      then show ?thesis using eq n by simp
    next
      case (Some r)
      then obtain k where k: "Suc j \<le> k" "k < kids scene q" "slot s (k # q) = Some r"
          "\<forall>m. Suc j \<le> m \<and> m < k \<longrightarrow> slot s (m # q) = None"
        using Suc.IH [OF lt m] by auto
      have "\<forall>m. j \<le> m \<and> m < k \<longrightarrow> slot s (m # q) = None"
      proof (intro allI impI)
        fix m assume "j \<le> m \<and> m < k"
        then show "slot s (m # q) = None"
          using None k(4) by (cases "m = j") auto
      qed
      then have "j \<le> k \<and> k < kids scene q \<and> slot s (k # q) = Some r \<and>
          (\<forall>m. j \<le> m \<and> m < k \<longrightarrow> slot s (m # q) = None)"
        using k by simp
      then show ?thesis using eq Some by (simp only: option.case) blast
    qed
  qed
qed

lemma findReference_next:
  "(case findReference scene s (getNext scene (i # q)) of
      None \<Rightarrow> (\<forall>k. i < k \<and> k < kids scene q \<longrightarrow> slot s (k # q) = None)
    | Some r \<Rightarrow> (\<exists>k. i < k \<and> k < kids scene q \<and> slot s (k # q) = Some r \<and>
                    (\<forall>m. i < m \<and> m < k \<longrightarrow> slot s (m # q) = None)))"
proof (cases "Suc i < kids scene q")
  case True
  then have g: "getNext scene (i # q) = Some (Suc i # q)"
    by (simp add: getNext_def isAttached_Cons)
  have l: "(Suc i \<le> k) = (i < k)" for k by auto
  show ?thesis
    using findReference_loop [of "Suc i" scene q "kids scene q - Suc (Suc i)" s] True
    by (simp only: g l)
next
  case False
  then have "getNext scene (i # q) = None"
    by (simp add: getNext_def isAttached_Cons)
  then show ?thesis using False by (auto simp: findReference.simps(1))
qed

lemma synced_parts:
  assumes "synced Editors scene s"
  shows "linked s" "slotted scene s" "mirrored Editors scene s" "ordered s"
  using assms unfolding synced_def by simp_all

lemma slotted_slot:
  assumes "slotted scene s" "slot s y = Some e"
  shows "e < nextId s" "e_element (heap s e) = y" "isAttached scene y"
  using assms unfolding slotted_def by blast+

lemma attach_step:
  assumes sy: "synced Editors scene s" and lo: "loose s ed x"
    and at: "isAttached scene x" and reg: "registered Editors scene x" and nx: "slot s x = None"
    and anc: "ancestor q x" and sq: "slot s q = Some pe"
    and between: "\<And>a. ancestor a x \<Longrightarrow> ancestor q a \<Longrightarrow>
                    slot s a = None \<and> \<not> registered Editors scene a"
  shows "\<exists>before after. childList s pe = before @ after \<and>
           insertEditor pe ed (findReference scene s (getNext scene x)) s =
             Inr (modify ed (\<lambda>e. e\<lparr>e_parentEditor := Some pe\<rparr>)
                    (modify pe (\<lambda>e. e\<lparr>e_editors := Some (before @ ed # after)\<rparr>) s)) \<and>
           synced Editors scene (attached s pe ed (before @ ed # after) x) \<and>
           (case findReference scene s (getNext scene x) of
              None \<Rightarrow> after = []
            | Some r \<Rightarrow> r \<notin> set before \<and> (\<exists>tl. after = r # tl))"
proof -
  note li = synced_parts(1) [OF sy] and sl = synced_parts(2) [OF sy]
    and mi = synced_parts(3) [OF sy] and ord = synced_parts(4) [OF sy]
  obtain i t where x: "x = i # t" using anc by (cases x) auto
  let ?ref = "findReference scene s (getNext scene x)"
  have pe: "pe < nextId s" "e_element (heap s pe) = q" using slotted_slot [OF sl sq] by auto
  have near: "nearestEditor s x = Some pe"
  proof (rule nearestEditor_between [OF anc _ sq])
    fix a assume "ancestor a x" "ancestor q a"
    then show "slot s a = None" using between by blast
  qed
  have spec: "(case ?ref of
      None \<Rightarrow> (\<forall>k. i < k \<and> k < kids scene t \<longrightarrow> slot s (k # t) = None)
    | Some r \<Rightarrow> (\<exists>k. i < k \<and> k < kids scene t \<and> slot s (k # t) = Some r \<and>
                    (\<forall>m. i < m \<and> m < k \<longrightarrow> slot s (m # t) = None)))"
    using findReference_next [where scene = scene and s = s and i = i and q = t] x by simp
  have refin: "?ref = None \<or> (\<exists>r. ?ref = Some r \<and> r \<in> set (childList s pe))"
  proof (cases ?ref)
    case None
    then show ?thesis by simp
  next
    case (Some r)
    then obtain k where k: "slot s (k # t) = Some r" using spec by auto
    have "e_parentEditor (heap s r) = nearestEditor s (k # t)"
      using mi k unfolding mirrored_def by blast
    also have "nearestEditor s (k # t) = nearestEditor s x" using x by simp
    finally have "e_parentEditor (heap s r) = Some pe" using near by simp
    moreover have "r < nextId s" using slotted_slot(1) [OF sl k] .
    ultimately have "r \<in> set (childList s pe)" using li unfolding linked_def by blast
    then show ?thesis using Some by simp
  qed
  have par: "e_parentEditor (heap s ed) = None" using lo unfolding loose_def by simp
  from insertEditor_attached [OF par refin] obtain before after where
    ba: "childList s pe = before @ after"
    and pos: "(case ?ref of None \<Rightarrow> after = [] | Some r \<Rightarrow> r \<notin> set before \<and> (\<exists>tl. after = r # tl))"
    and ins: "insertEditor pe ed ?ref s =
      Inr (modify ed (\<lambda>e. e\<lparr>e_parentEditor := Some pe\<rparr>)
             (modify pe (\<lambda>e. e\<lparr>e_editors := Some (before @ ed # after)\<rparr>) s))"
    by blast
  text \<open>the editors of the direct children of q in the list of pe\<close>
  have child: "\<exists>k. e_element (heap s c) = k # q \<and> slot s (k # q) = Some c \<and> k < kids scene q \<and> k \<noteq> i"
    if c: "c \<in> set (childList s pe)" "isChildOf q (e_element (heap s c))" and tq: "t = q" for c
  proof -
    from c(2) obtain k where k: "e_element (heap s c) = k # q"
      by (cases "e_element (heap s c)") (auto simp: isChildOf_def)
    have sc: "slot s (k # q) = Some c"
      using child_element_slotted [OF sl pe(1) c(1)] k by simp
    then have "isAttached scene (k # q)" using slotted_slot(3) [OF sl] by blast
    then have "k < kids scene q" by (simp add: isAttached_Cons)
    moreover have "k \<noteq> i" using sc nx x tq by auto
    ultimately show ?thesis using k sc by blast
  qed
  have position: "(\<forall>c \<in> set before. isChildOf q (e_element (heap s c)) \<longrightarrow> hd (e_element (heap s c)) < hd x) \<and>
       (\<forall>c \<in> set after. isChildOf q (e_element (heap s c)) \<longrightarrow> hd x < hd (e_element (heap s c)))"
    if cq: "isChildOf q x"
  proof -
    have tq: "t = q" using cq x by (simp add: isChildOf_def)
    show ?thesis
    proof (cases ?ref)
      case None
      then have af: "after = []" using pos by simp
      have none: "\<forall>k. i < k \<and> k < kids scene t \<longrightarrow> slot s (k # t) = None"
        using spec None by simp
      have "hd (e_element (heap s c)) < hd x"
        if "c \<in> set before" "isChildOf q (e_element (heap s c))" for c
      proof -
        from child [of c] that ba tq obtain k where
          k: "e_element (heap s c) = k # q" "slot s (k # q) = Some c" "k < kids scene q" "k \<noteq> i"
          by auto
        have "\<not> i < k" using none k(2,3) tq by auto
        then show ?thesis using k(1,4) x by simp
      qed
      then show ?thesis using af by simp
    next
      case (Some r)
      then obtain tl where af: "after = r # tl" using pos by auto
      from Some spec obtain j where j: "i < j" "slot s (j # t) = Some r"
        "\<forall>m. i < m \<and> m < j \<longrightarrow> slot s (m # t) = None" by auto
      have er: "e_element (heap s r) = j # q" using slotted_slot(2) [OF sl j(2)] tq by simp
      let ?F = "\<lambda>l. map (\<lambda>e. hd (e_element (heap s e))) (filter (\<lambda>e. isChildOf q (e_element (heap s e))) l)"
      have "sorted_wrt (<) (childIndices s q pe)" using ord sq unfolding ordered_def by blast
      then have so: "sorted_wrt (<) (?F before @ j # ?F tl)"
        using ba af er by (simp add: childIndices_def childEditors_def isChildOf_def)
      have lo1: "a < j" if "a \<in> set (?F before)" for a
        using so that by (auto simp: sorted_wrt_append)
      have hi1: "j < b" if "b \<in> set (?F tl)" for b
        using so that by (auto simp: sorted_wrt_append)
      have p1: "hd (e_element (heap s c)) < hd x"
        if "c \<in> set before" "isChildOf q (e_element (heap s c))" for c
      proof -
        from child [of c] that ba tq obtain k where
          k: "e_element (heap s c) = k # q" "slot s (k # q) = Some c" "k < kids scene q" "k \<noteq> i"
          by auto
        have "k \<in> set (?F before)" using that k(1) by force
        then have "k < j" by (rule lo1)
        then have "\<not> i < k" using j(3) k(2) tq by auto
        then show ?thesis using k(1,4) x by simp
      qed
      have p2: "hd x < hd (e_element (heap s c))"
        if "c \<in> set after" "isChildOf q (e_element (heap s c))" for c
      proof (cases "c = r")
        case True
        then show ?thesis using er j(1) x by simp
      next
        case False
        then have "c \<in> set tl" using that(1) af by simp
        then have "hd (e_element (heap s c)) \<in> set (?F tl)" using that(2) by force
        then have "j < hd (e_element (heap s c))" by (rule hi1)
        then show ?thesis using j(1) x by simp
      qed
      show ?thesis using p1 p2 by blast
    qed
  qed
  have "linked (attached s pe ed (before @ ed # after) x)"
    using li sl lo sq ba by (rule linked_attached)
  moreover have "slotted scene (attached s pe ed (before @ ed # after) x)"
    using li sl lo sq ba at nx by (rule slotted_attached)
  moreover have "mirrored Editors scene (attached s pe ed (before @ ed # after) x)"
    using mi sl lo reg nx anc sq between by (rule mirrored_attached)
  moreover have "ordered (attached s pe ed (before @ ed # after) x)"
    using ord sl lo nx sq ba position by (rule ordered_attached)
  ultimately have "synced Editors scene (attached s pe ed (before @ ed # after) x)"
    unfolding synced_def by simp
  then show ?thesis using ba ins pos by blast
qed

lemma create_step:
  assumes sy: "synced Editors scene s" and reg: "registered Editors scene x"
  shows "createEditor Editors scene x s =
           (Some (nextId s), s\<lparr>heap := (heap s)(nextId s := newEditor x), nextId := Suc (nextId s)\<rparr>)"
    and "synced Editors scene (s\<lparr>heap := (heap s)(nextId s := newEditor x), nextId := Suc (nextId s)\<rparr>)"
    and "loose (s\<lparr>heap := (heap s)(nextId s := newEditor x), nextId := Suc (nextId s)\<rparr>) (nextId s) x"
proof -
  let ?n = "nextId s"
  let ?s1 = "s\<lparr>heap := (heap s)(?n := newEditor x), nextId := Suc ?n\<rparr>"
  note li = synced_parts(1) [OF sy] and sl = synced_parts(2) [OF sy]
    and mi = synced_parts(3) [OF sy] and ord = synced_parts(4) [OF sy]
  show "createEditor Editors scene x s = (Some ?n, ?s1)"
    using reg by (auto simp: createEditor_def registered_def)
  have cl: "childList ?s1 e = (if e = ?n then [] else childList s e)" for e
    by (simp add: childList_def newEditor_def)
  have pa: "e_parentEditor (heap ?s1 e) = (if e = ?n then None else e_parentEditor (heap s e))" for e
    by (simp add: newEditor_def)
  have el: "e \<noteq> ?n \<Longrightarrow> e_element (heap ?s1 e) = e_element (heap s e)" for e
    by simp
  have l1: "c < ?n \<and> e_parentEditor (heap s c) = Some p"
    if "p < ?n" "c \<in> set (childList s p)" for p c
    using li that unfolding linked_def by blast
  have l2: "p < ?n \<and> c \<in> set (childList s p)"
    if "c < ?n" "e_parentEditor (heap s c) = Some p" for p c
    using li that unfolding linked_def by blast
  have l3: "distinct (childList s p)" if "p < ?n" for p
    using li that unfolding linked_def by blast
  have "linked ?s1" unfolding linked_def
  proof (intro conjI allI impI)
    fix p c assume a: "p < nextId ?s1 \<and> c \<in> set (childList ?s1 p)"
    then have p: "p < ?n" "c \<in> set (childList s p)" by (auto simp: cl split: if_splits)
    show "c < nextId ?s1" using l1 [OF p] by simp
    show "e_parentEditor (heap ?s1 c) = Some p" using l1 [OF p] by (simp add: pa)
  next
    fix c p assume a: "c < nextId ?s1 \<and> e_parentEditor (heap ?s1 c) = Some p"
    then have c: "c < ?n" "e_parentEditor (heap s c) = Some p" by (auto simp: newEditor_def split: if_splits)
    show "p < nextId ?s1" using l2 [OF c] by simp
    show "c \<in> set (childList ?s1 p)" using l2 [OF c] by (simp add: cl)
  next
    fix p assume "p < nextId ?s1"
    then show "distinct (childList ?s1 p)" using l3 [of p] by (auto simp: cl)
  qed
  moreover have "slotted scene ?s1" unfolding slotted_def
  proof (intro conjI allI impI)
    fix y e assume a: "slot ?s1 y = Some e"
    then have sy': "slot s y = Some e" by simp
    show "e < nextId ?s1" using slotted_slot(1) [OF sl sy'] by simp
    show "e_element (heap ?s1 e) = y" using slotted_slot(1,2) [OF sl sy'] by simp
    show "isAttached scene y" using slotted_slot(3) [OF sl sy'] .
  next
    fix p c assume a: "p < nextId ?s1 \<and> c \<in> set (childList ?s1 p)"
    then have p: "p < ?n" "c \<in> set (childList s p)" by (auto simp: cl split: if_splits)
    have "c < ?n" using l1 [OF p] by simp
    then show "slot ?s1 (e_element (heap ?s1 c)) = Some c"
      using child_element_slotted [OF sl p] by simp
  qed
  moreover have "mirrored Editors scene ?s1" unfolding mirrored_def
  proof (intro conjI allI impI)
    fix y e assume a: "slot ?s1 y = Some e"
    then have sy': "slot s y = Some e" by simp
    have "nearestEditor ?s1 y = nearestEditor s y" by (rule nearestEditor_cong) simp
    moreover have "e_parentEditor (heap s e) = nearestEditor s y"
      using mi sy' unfolding mirrored_def by blast
    ultimately show "e_parentEditor (heap ?s1 e) = nearestEditor ?s1 y"
      using slotted_slot(1) [OF sl sy'] by (simp add: pa)
  next
    fix y a assume "slot ?s1 y \<noteq> None \<and> ancestor a y \<and> registered Editors scene a"
    then have "slot s y \<noteq> None \<and> ancestor a y \<and> registered Editors scene a" by simp
    then have "slot s a \<noteq> None" using mi unfolding mirrored_def by blast
    then show "slot ?s1 a \<noteq> None" by simp
  qed
  moreover have "ordered ?s1" unfolding ordered_def
  proof (intro allI impI)
    fix q pe assume a: "slot ?s1 q = Some pe"
    then have sq: "slot s q = Some pe" by simp
    have pe: "pe < ?n" using slotted_slot(1) [OF sl sq] .
    have c_ne: "c \<noteq> ?n" if "c \<in> set (childList s pe)" for c
      using l1 [OF pe that] by simp
    have f: "filter (\<lambda>e. isChildOf q (e_element (heap ?s1 e))) (childList s pe) =
        filter (\<lambda>e. isChildOf q (e_element (heap s e))) (childList s pe)"
      by (rule filter_cong) (auto simp: c_ne)
    have "map (\<lambda>e. hd (e_element (heap ?s1 e)))
            (filter (\<lambda>e. isChildOf q (e_element (heap s e))) (childList s pe)) =
          map (\<lambda>e. hd (e_element (heap s e)))
            (filter (\<lambda>e. isChildOf q (e_element (heap s e))) (childList s pe))"
      by (rule map_cong) (auto simp: c_ne)
    then have "childIndices ?s1 q pe = childIndices s q pe"
      using pe f unfolding childIndices_def childEditors_def by (simp add: cl)
    then show "sorted_wrt (<) (childIndices ?s1 q pe)"
      using ord sq unfolding ordered_def by simp
  qed
  ultimately show "synced Editors scene ?s1" unfolding synced_def by simp
  have "slot s y \<noteq> Some ?n" for y using slotted_slot(1) [OF sl, of y ?n] by auto
  then show "loose ?s1 ?n x" unfolding loose_def by (simp add: newEditor_def)
qed

declare openEditor.simps [simp del] ancestorLoop.simps [simp del]

lemma ancestor_Nil: "x \<noteq> [] \<Longrightarrow> ancestor [] x"
  by (induction x) auto

lemma getParent_simps [simp]: "getParent [] = None" "getParent (i # q) = Some q"
  by (simp_all add: getParent_def)

lemma loop_none:
  assumes "loop_pre Editors scene s x ed None"
  shows "ancestorLoop Editors scene s x ed None = Inr s \<and> loop_post Editors scene s x ed s"
proof -
  have pre: "synced Editors scene s" "loose s ed x" "isAttached scene x"
    "registered Editors scene x" "slot s x = None"
    "\<And>a. ancestor a x \<Longrightarrow> slot s a = None \<and> \<not> registered Editors scene a"
    using assms unfolding loop_pre_def by auto
  have "synced Editors scene (s\<lparr>slot := (slot s)(x \<mapsto> ed)\<rparr>)"
    using pre by (rule synced_rooted)
  moreover have "e_editors (heap s ed) = None" using pre(2) unfolding loose_def by simp
  ultimately have "loop_post Editors scene s x ed s"
    using pre(5) unfolding loop_post_def by auto
  then show ?thesis by (simp add: ancestorLoop.simps(1))
qed

lemma loop_attach:
  assumes sy: "synced Editors scene s1" and lo: "loose s1 ed x"
    and at: "isAttached scene x" and reg: "registered Editors scene x" and nx: "slot s1 x = None"
    and anc: "ancestor q x" and sq: "slot s1 q = Some pe"
    and between: "\<And>a. ancestor a x \<Longrightarrow> ancestor q a \<Longrightarrow>
                    slot s1 a = None \<and> \<not> registered Editors scene a"
  shows "\<exists>s2. insertEditor pe ed (findReference scene s1 (getNext scene x)) s1 = Inr s2 \<and>
           synced Editors scene (s2\<lparr>slot := (slot s2)(x \<mapsto> ed)\<rparr>) \<and>
           slot s2 = slot s1 \<and> nextId s2 = nextId s1 \<and>
           (\<forall>e. e \<noteq> pe \<and> e \<noteq> ed \<longrightarrow> heap s2 e = heap s1 e) \<and>
           e_editors (heap s2 ed) = None"
proof -
  from attach_step [OF sy lo at reg nx anc sq between] obtain before after where
    ins: "insertEditor pe ed (findReference scene s1 (getNext scene x)) s1 =
             Inr (modify ed (\<lambda>e. e\<lparr>e_parentEditor := Some pe\<rparr>)
                    (modify pe (\<lambda>e. e\<lparr>e_editors := Some (before @ ed # after)\<rparr>) s1))"
    and syn: "synced Editors scene (attached s1 pe ed (before @ ed # after) x)"
    by blast
  let ?s2 = "modify ed (\<lambda>e. e\<lparr>e_parentEditor := Some pe\<rparr>)
                    (modify pe (\<lambda>e. e\<lparr>e_editors := Some (before @ ed # after)\<rparr>) s1)"
  have "pe \<noteq> ed" using lo sq unfolding loose_def by auto
  moreover have "e_editors (heap s1 ed) = None" using lo unfolding loose_def by simp
  ultimately have "e_editors (heap ?s2 ed) = None" by (simp add: modify_def)
  moreover have "?s2\<lparr>slot := (slot ?s2)(x \<mapsto> ed)\<rparr> = attached s1 pe ed (before @ ed # after) x"
    by (simp add: attached_def modify_def)
  moreover have "slot ?s2 = slot s1" "nextId ?s2 = nextId s1" by (simp_all add: modify_def)
  moreover have "\<forall>e. e \<noteq> pe \<and> e \<noteq> ed \<longrightarrow> heap ?s2 e = heap s1 e" by (simp add: modify_def)
  ultimately show ?thesis using ins syn by (intro exI [of _ ?s2]) simp
qed

lemma loop_step:
  fixes s :: "('p, 't) state"
  assumes IH: "\<And>y (s0 :: ('p, 't) state). length y < length x \<Longrightarrow> open_ok Editors scene s0 y"
    and pre: "loop_pre Editors scene s x ed (Some q)"
    and nxt: "loop_pre Editors scene s x ed (getParent q) \<Longrightarrow>
       \<exists>s'. ancestorLoop Editors scene s x ed (getParent q) = Inr s' \<and> loop_post Editors scene s x ed s'"
  shows "\<exists>s'. ancestorLoop Editors scene s x ed (Some q) = Inr s' \<and> loop_post Editors scene s x ed s'"
proof -
  have sy: "synced Editors scene s" and lo: "loose s ed x" and at: "isAttached scene x"
    and reg: "registered Editors scene x" and nx: "slot s x = None" and anc: "ancestor q x"
    using pre unfolding loop_pre_def by auto
  have between: "slot s a = None \<and> \<not> registered Editors scene a"
    if "ancestor a x" "ancestor q a" for a
    using pre that unfolding loop_pre_def by auto
  have ed: "ed < nextId s" "\<And>y. slot s y \<noteq> Some ed" "e_editors (heap s ed) = None"
    using lo unfolding loose_def by auto
  show ?thesis
  proof (cases "slot s q")
    case (Some pe)
    from loop_attach [OF sy lo at reg nx anc Some between] obtain s2 where
      s2: "insertEditor pe ed (findReference scene s (getNext scene x)) s = Inr s2"
        "synced Editors scene (s2\<lparr>slot := (slot s2)(x \<mapsto> ed)\<rparr>)"
        "slot s2 = slot s" "nextId s2 = nextId s"
        "\<forall>e. e \<noteq> pe \<and> e \<noteq> ed \<longrightarrow> heap s2 e = heap s e"
        "e_editors (heap s2 ed) = None"
      by blast
    have run: "ancestorLoop Editors scene s x ed (Some q) = Inr s2"
      by (subst ancestorLoop.simps) (simp add: getEditor_def Some s2(1))
    have "heap s2 e = heap s e" if "e < nextId s" "e \<noteq> ed" "\<forall>y. slot s y \<noteq> Some e" for e
    proof -
      have "e \<noteq> pe" using that(3) Some by auto
      then show ?thesis using s2(5) that(2) by simp
    qed
    then have "loop_post Editors scene s x ed s2"
      unfolding loop_post_def using s2(2,3,4,6) nx by auto
    then show ?thesis using run by blast
  next
    case None
    have lq: "length q < length x" using anc by (rule ancestor_length)
    have aq: "isAttached scene q" using anc at by (rule isAttached_ancestor)
    from IH [OF lq, of s] sy aq obtain r s1 where
      op: "openEditor Editors scene s q = Inr (r, s1)" and post: "open_post Editors scene s q r s1"
      unfolding open_ok_def by blast
    have sy1: "synced Editors scene s1" and rs: "slot s1 q = r"
      and rr: "registered Editors scene q \<Longrightarrow> r \<noteq> None"
      and same: "\<not> registered Editors scene q \<Longrightarrow> s1 = s"
      and fr: "opened s s1 q"
      using post None unfolding open_post_def by auto
    have f1: "nextId s \<le> nextId s1"
      and f2: "\<And>y. slot s y \<noteq> None \<Longrightarrow> slot s1 y = slot s y"
      and f3: "\<And>y e. slot s y = None \<Longrightarrow> slot s1 y = Some e \<Longrightarrow> nextId s \<le> e \<and> (y = q \<or> ancestor y q)"
      and f4: "\<And>e. e < nextId s \<Longrightarrow> (\<forall>y. slot s y \<noteq> Some e) \<Longrightarrow> heap s1 e = heap s e"
      using fr unfolding opened_def by auto
    show ?thesis
    proof (cases r)
      case rn: None
      then have "\<not> registered Editors scene q" using rr by auto
      then have s1: "s1 = s" by (rule same)
      have run: "ancestorLoop Editors scene s x ed (Some q) =
          ancestorLoop Editors scene s x ed (getParent q)"
        by (subst ancestorLoop.simps) (simp add: getEditor_def None op rn s1)
      have nq: "slot s q = None \<and> \<not> registered Editors scene q"
        using None \<open>\<not> registered Editors scene q\<close> by simp
      have "loop_pre Editors scene s x ed (getParent q)"
      proof (cases q)
        case Nil
        have "slot s a = None \<and> \<not> registered Editors scene a" if a: "ancestor a x" for a
        proof (cases "a = []")
          case True
          then show ?thesis using nq Nil by simp
        next
          case False
          then have "ancestor q a" using Nil ancestor_Nil by simp
          then show ?thesis using between a by blast
        qed
        then show ?thesis using Nil sy lo at reg nx unfolding loop_pre_def by simp
      next
        case (Cons j q')
        have aq': "ancestor q' x" using anc Cons ancestor_trans [of q' q x] by simp
        have "slot s a = None \<and> \<not> registered Editors scene a"
          if a: "ancestor a x" "ancestor q' a" for a
        proof -
          from ancestor_comparable [OF a(1) anc]
          consider "a = q" | "ancestor a q" | "ancestor q a" by blast
          then show ?thesis
          proof cases
            case 1
            then show ?thesis using nq by simp
          next
            case 2
            then have "a = q' \<or> ancestor a q'" using Cons by simp
            then have "ancestor a a" using a(2) ancestor_trans [of a q' a] by auto
            then show ?thesis using ancestor_irrefl by blast
          next
            case 3
            then show ?thesis using between a(1) by blast
          qed
        qed
        then show ?thesis using Cons sy lo at reg nx aq' unfolding loop_pre_def by simp
      qed
      then show ?thesis using nxt run by simp
    next
      case (Some pe)
      have sq1: "slot s1 q = Some pe" using rs Some by simp
      have pe_new: "nextId s \<le> pe" using f3 [OF None sq1] by simp
      have notslot: "slot s1 y \<noteq> Some ed" for y
      proof
        assume a: "slot s1 y = Some ed"
        show False
        proof (cases "slot s y")
          case None
          then show ?thesis using f3 [OF None a] ed(1) by simp
        next
          case (Some e)
          then show ?thesis using f2 [of y] a ed(2) [of y] by simp
        qed
      qed
      have hed: "heap s1 ed = heap s ed" using f4 [of ed] ed(1,2) by simp
      have lo1: "loose s1 ed x"
        using lo notslot hed f1 unfolding loose_def by auto
      have nx1: "slot s1 x = None"
      proof (rule ccontr)
        assume "slot s1 x \<noteq> None"
        then obtain e where "slot s1 x = Some e" by auto
        then have "x = q \<or> ancestor x q" using f3 [OF nx] by blast
        then have "ancestor x x" using anc ancestor_trans [of x q x] by auto
        then show False using ancestor_irrefl by blast
      qed
      have between1: "slot s1 a = None \<and> \<not> registered Editors scene a"
        if a: "ancestor a x" "ancestor q a" for a
      proof -
        have b: "slot s a = None" "\<not> registered Editors scene a" using between [OF a] by auto
        have "slot s1 a = None"
        proof (rule ccontr)
          assume "slot s1 a \<noteq> None"
          then obtain e where "slot s1 a = Some e" by auto
          then have "a = q \<or> ancestor a q" using f3 [OF b(1)] by blast
          then have "ancestor a a" using a(2) ancestor_trans [of a q a] by auto
          then show False using ancestor_irrefl by blast
        qed
        then show ?thesis using b(2) by simp
      qed
      from loop_attach [OF sy1 lo1 at reg nx1 anc sq1 between1] obtain s2 where
        s2: "insertEditor pe ed (findReference scene s1 (getNext scene x)) s1 = Inr s2"
          "synced Editors scene (s2\<lparr>slot := (slot s2)(x \<mapsto> ed)\<rparr>)"
          "slot s2 = slot s1" "nextId s2 = nextId s1"
          "\<forall>e. e \<noteq> pe \<and> e \<noteq> ed \<longrightarrow> heap s2 e = heap s1 e"
          "e_editors (heap s2 ed) = None"
        by blast
      have run: "ancestorLoop Editors scene s x ed (Some q) = Inr s2"
        by (subst ancestorLoop.simps) (simp add: getEditor_def None op Some s2(1))
      have p3: "nextId s \<le> e \<and> ancestor y x" if "slot s y = None" "slot s2 y = Some e" for y e
      proof -
        have "nextId s \<le> e \<and> (y = q \<or> ancestor y q)"
          using f3 [OF that(1)] that(2) s2(3) by simp
        then show ?thesis using anc ancestor_trans [of y q x] by auto
      qed
      have p4: "heap s2 e = heap s e" if "e < nextId s" "e \<noteq> ed" "\<forall>y. slot s y \<noteq> Some e" for e
      proof -
        have "e \<noteq> pe" using that(1) pe_new by simp
        then have "heap s2 e = heap s1 e" using s2(5) that(2) by simp
        then show ?thesis using f4 [of e] that by simp
      qed
      have "loop_post Editors scene s x ed s2"
        unfolding loop_post_def
      proof (intro conjI allI impI)
        show "synced Editors scene (s2\<lparr>slot := (slot s2)(x \<mapsto> ed)\<rparr>)" by (rule s2(2))
        show "slot s2 x = None" using s2(3) nx1 by simp
        show "nextId s \<le> nextId s2" using s2(4) f1 by simp
        show "e_editors (heap s2 ed) = None" by (rule s2(6))
      next
        fix y assume "slot s y \<noteq> None"
        then show "slot s2 y = slot s y" using f2 s2(3) by simp
      next
        fix y e assume a: "slot s y = None \<and> slot s2 y = Some e"
        then show "nextId s \<le> e" "ancestor y x" using p3 by blast+
      next
        fix e assume "e < nextId s \<and> e \<noteq> ed \<and> (\<forall>y. slot s y \<noteq> Some e)"
        then show "heap s2 e = heap s e" using p4 by blast
      qed
      then show ?thesis using run by blast
    qed
  qed
qed

lemma loop_some:
  fixes s :: "('p, 't) state"
  assumes IH: "\<And>y (s0 :: ('p, 't) state). length y < length x \<Longrightarrow> open_ok Editors scene s0 y"
  shows "loop_pre Editors scene s x ed (Some q) \<Longrightarrow>
     \<exists>s'. ancestorLoop Editors scene s x ed (Some q) = Inr s' \<and> loop_post Editors scene s x ed s'"
proof (induction q)
  case Nil
  show ?case
  proof (rule loop_step [OF IH Nil])
    assume "loop_pre Editors scene s x ed (getParent [])"
    then show "\<exists>s'. ancestorLoop Editors scene s x ed (getParent []) = Inr s' \<and>
        loop_post Editors scene s x ed s'"
      using loop_none [of Editors scene s x ed] by simp
  qed
next
  case (Cons j q)
  show ?case
  proof (rule loop_step [OF IH Cons.prems])
    assume "loop_pre Editors scene s x ed (getParent (j # q))"
    then show "\<exists>s'. ancestorLoop Editors scene s x ed (getParent (j # q)) = Inr s' \<and>
        loop_post Editors scene s x ed s'"
      using Cons.IH by simp
  qed
qed

lemma opened_refl: "opened s s x"
  unfolding opened_def by auto

lemma open_ok_all:
  fixes s :: "('p, 't) state"
  shows "open_ok Editors scene s x"
proof (induction x arbitrary: s rule: length_induct)
  case (1 x)
  have IH: "open_ok Editors scene s0 y" if "length y < length x" for y and s0 :: "('p, 't) state"
    using 1 that by blast
  show ?case unfolding open_ok_def
  proof (intro impI)
    assume a: "synced Editors scene s \<and> isAttached scene x"
    then have sy: "synced Editors scene s" and at: "isAttached scene x" by auto
    show "\<exists>r s'. openEditor Editors scene s x = Inr (r, s') \<and> open_post Editors scene s x r s'"
    proof (cases "slot s x")
      case (Some e)
      then have "openEditor Editors scene s x = Inr (Some e, s)"
        using at by (subst openEditor.simps) (simp add: getEditor_def)
      moreover have "open_post Editors scene s x (Some e) s"
        using sy Some opened_refl [of s x] unfolding open_post_def by simp
      ultimately show ?thesis by blast
    next
      case None
      show ?thesis
      proof (cases "registered Editors scene x")
        case False
        then have "createEditor Editors scene x s = (None, s)"
          by (simp add: createEditor_def registered_def)
        then have "openEditor Editors scene s x = Inr (None, s)"
          using at None by (subst openEditor.simps) (simp add: getEditor_def)
        moreover have "open_post Editors scene s x None s"
          using sy None False opened_refl [of s x] unfolding open_post_def by simp
        ultimately show ?thesis by blast
      next
        case True
        let ?ed = "nextId s"
        let ?s1 = "s\<lparr>heap := (heap s)(?ed := newEditor x), nextId := Suc ?ed\<rparr>"
        note cr = create_step [OF sy True]
        have pre: "loop_pre Editors scene ?s1 x ?ed (getParent x)"
        proof (cases x)
          case Nil
          then show ?thesis using cr(2,3) at True None unfolding loop_pre_def by simp
        next
          case (Cons i q)
          have "\<not> (ancestor a x \<and> ancestor q a)" for a
          proof
            assume b: "ancestor a x \<and> ancestor q a"
            then have "a = q \<or> ancestor a q" using Cons by simp
            then have "ancestor a a" using b ancestor_trans [of a q a] by auto
            then show False using ancestor_irrefl by blast
          qed
          then have "\<forall>a. ancestor a x \<and> ancestor q a \<longrightarrow>
              slot ?s1 a = None \<and> \<not> registered Editors scene a" by blast
          moreover have "ancestor q x" using Cons by simp
          ultimately show ?thesis using Cons cr(2,3) at True None unfolding loop_pre_def
            by (simp del: ancestor.simps)
        qed
        have "\<exists>s2. ancestorLoop Editors scene ?s1 x ?ed (getParent x) = Inr s2 \<and>
            loop_post Editors scene ?s1 x ?ed s2"
        proof (cases x)
          case Nil
          then show ?thesis using loop_none [of Editors scene ?s1 x ?ed] pre by simp
        next
          case (Cons i q)
          then have "loop_pre Editors scene ?s1 x ?ed (Some q)" using pre by simp
          then show ?thesis using loop_some [of x Editors scene ?s1 ?ed q] IH Cons by simp
        qed
        then obtain s2 where
          lp: "ancestorLoop Editors scene ?s1 x ?ed (getParent x) = Inr s2"
          and post: "loop_post Editors scene ?s1 x ?ed s2"
          by blast
        let ?s' = "s2\<lparr>slot := (slot s2)(x \<mapsto> ?ed)\<rparr>"
        have run: "openEditor Editors scene s x = Inr (Some ?ed, ?s')"
          using at None by (subst openEditor.simps) (simp add: getEditor_def cr(1) lp)
        have q1: "synced Editors scene ?s'" and q2: "slot s2 x = None"
          and q3: "Suc ?ed \<le> nextId s2"
          and q4: "\<And>y. slot s y \<noteq> None \<Longrightarrow> slot s2 y = slot s y"
          and q5: "\<And>y e. slot s y = None \<Longrightarrow> slot s2 y = Some e \<Longrightarrow> Suc ?ed \<le> e \<and> ancestor y x"
          and q6: "\<And>e. e < Suc ?ed \<Longrightarrow> e \<noteq> ?ed \<Longrightarrow> (\<forall>y. slot s y \<noteq> Some e) \<Longrightarrow> heap s2 e = heap ?s1 e"
          and q7: "e_editors (heap s2 ?ed) = None"
          using post unfolding loop_post_def by auto
        have "opened s ?s' x" unfolding opened_def
        proof (intro conjI allI impI)
          show "nextId s \<le> nextId ?s'" using q3 by simp
        next
          fix y assume "slot s y \<noteq> None"
          then show "slot ?s' y = slot s y" using q4 [of y] None by auto
        next
          fix y e assume b: "slot s y = None \<and> slot ?s' y = Some e"
          show "nextId s \<le> e" using b q5 [of y e] by (cases "y = x") auto
          show "y = x \<or> ancestor y x" using b q5 [of y e] by (cases "y = x") auto
        next
          fix e assume b: "e < nextId s \<and> (\<forall>y. slot s y \<noteq> Some e)"
          then have "heap s2 e = heap ?s1 e" using q6 [of e] by simp
          then show "heap ?s' e = heap s e" using b by simp
        qed
        then have "open_post Editors scene s x (Some ?ed) ?s'"
          unfolding open_post_def using q1 q7 True by simp
        then show ?thesis using run by blast
      qed
    qed
  qed
qed

theorem openEditor_total:
  fixes s :: "('p, 't) state"
  assumes "synced Editors scene s" "isAttached scene x"
  shows "\<exists>r s'. openEditor Editors scene s x = Inr (r, s') \<and> open_post Editors scene s x r s'"
  using open_ok_all [of Editors scene s x] assms unfolding open_ok_def by blast

lemma map_filter_none: "(\<And>x. x \<in> set xs \<Longrightarrow> f x = None) \<Longrightarrow> List.map_filter f xs = []"
  by (induction xs) auto

lemma map_filter_append: "List.map_filter f (xs @ ys) = List.map_filter f xs @ List.map_filter f ys"
  by (induction xs) (auto split: option.splits)

lemma findReference_later:
  "findReference scene s (getNext scene (i # q)) =
     (case List.map_filter (\<lambda>j. slot s (j # q)) [Suc i..<kids scene q] of
        [] \<Rightarrow> None
      | r # _ \<Rightarrow> Some r)"
proof (cases "findReference scene s (getNext scene (i # q))")
  case None
  then have "\<forall>k. i < k \<and> k < kids scene q \<longrightarrow> slot s (k # q) = None"
    using findReference_next [where scene = scene and s = s and i = i and q = q] by simp
  then have "List.map_filter (\<lambda>j. slot s (j # q)) [Suc i..<kids scene q] = []"
    by (intro map_filter_none) auto
  then show ?thesis using None by simp
next
  case (Some r)
  then obtain k where k: "i < k" "k < kids scene q" "slot s (k # q) = Some r"
      "\<forall>m. i < m \<and> m < k \<longrightarrow> slot s (m # q) = None"
    using findReference_next [where scene = scene and s = s and i = i and q = q] by auto
  have "[Suc i..<kids scene q] = [Suc i..<k] @ k # [Suc k..<kids scene q]"
    using k(1,2) by (metis Suc_leI le_add_diff_inverse less_imp_le_nat upt_add_eq_append upt_conv_Cons)
  moreover have "List.map_filter (\<lambda>j. slot s (j # q)) [Suc i..<k] = []"
    using k(4) by (intro map_filter_none) auto
  ultimately have "List.map_filter (\<lambda>j. slot s (j # q)) [Suc i..<kids scene q] =
      r # List.map_filter (\<lambda>j. slot s (j # q)) [Suc k..<kids scene q]"
    using k(3) by (simp add: map_filter_append)
  then show ?thesis using Some by simp
qed

lemma order_from_synced:
  assumes sy: "synced Editors scene s" and sp: "slot s P = Some pe"
  shows "childEditors s P pe = List.map_filter (\<lambda>i. slot s (i # P)) [0..<kids scene P]"
proof -
  note li = synced_parts(1) [OF sy] and sl = synced_parts(2) [OF sy]
    and mi = synced_parts(3) [OF sy] and ord = synced_parts(4) [OF sy]
  let ?L = "childEditors s P pe"
  let ?I = "childIndices s P pe"
  let ?J = "filter (\<lambda>k. slot s (k # P) \<noteq> None) [0..<kids scene P]"
  have pe: "pe < nextId s" using slotted_slot(1) [OF sl sp] .
  have mem: "\<exists>k. e_element (heap s e) = k # P \<and> slot s (k # P) = Some e \<and> k < kids scene P"
    if "e \<in> set ?L" for e
  proof -
    from that have c: "e \<in> set (childList s pe)" "isChildOf P (e_element (heap s e))"
      by (auto simp: childEditors_def)
    from c(2) obtain k where k: "e_element (heap s e) = k # P"
      by (cases "e_element (heap s e)") (auto simp: isChildOf_def)
    have sc: "slot s (k # P) = Some e"
      using child_element_slotted [OF sl pe c(1)] k by simp
    then have "isAttached scene (k # P)" using slotted_slot(3) [OF sl] by blast
    then show ?thesis using k sc by (auto simp: isAttached_Cons)
  qed
  have L: "?L = map (\<lambda>k. the (slot s (k # P))) ?I"
  proof -
    have "map (\<lambda>k. the (slot s (k # P))) ?I = map (\<lambda>e. the (slot s (hd (e_element (heap s e)) # P))) ?L"
      by (simp add: childIndices_def comp_def)
    also have "\<dots> = map (\<lambda>e. e) ?L"
    proof (rule map_cong [OF refl])
      fix e assume "e \<in> set ?L"
      then show "the (slot s (hd (e_element (heap s e)) # P)) = e" using mem [of e] by auto
    qed
    finally show ?thesis by simp
  qed
  have setI: "set ?I = set ?J"
  proof (intro set_eqI iffI)
    fix k assume "k \<in> set ?I"
    then obtain e where "e \<in> set ?L" "k = hd (e_element (heap s e))"
      by (auto simp: childIndices_def)
    then show "k \<in> set ?J" using mem [of e] by auto
  next
    fix k assume "k \<in> set ?J"
    then obtain e where k: "k < kids scene P" "slot s (k # P) = Some e" by auto
    have "e_parentEditor (heap s e) = nearestEditor s (k # P)"
      using mi k(2) unfolding mirrored_def by blast
    then have "e_parentEditor (heap s e) = Some pe" using sp by simp
    moreover have e: "e < nextId s" "e_element (heap s e) = k # P"
      using slotted_slot(1,2) [OF sl k(2)] by auto
    ultimately have "e \<in> set (childList s pe)" using li unfolding linked_def by blast
    then have "e \<in> set ?L" using e(2) by (simp add: childEditors_def isChildOf_def)
    then have "hd (e_element (heap s e)) \<in> set ?I" by (simp add: childIndices_def)
    then show "k \<in> set ?I" using e(2) by simp
  qed
  have "sorted_wrt (<) ?I" using ord sp unfolding ordered_def by blast
  then have "sorted ?I" "distinct ?I" by (simp_all add: strict_sorted_iff)
  moreover have "sorted ?J" "distinct ?J" by (simp_all add: sorted_wrt_filter)
  ultimately have "?I = ?J" using setI by (intro sorted_distinct_set_unique)
  then have "?L = map (\<lambda>k. the (slot s (k # P))) ?J" using L by simp
  also have "\<dots> = List.map_filter (\<lambda>i. slot s (i # P)) [0..<kids scene P]"
    by (simp add: List.map_filter_def comp_def)
  finally show ?thesis .
qed

lemma openAll_synced:
  fixes s :: "('p, 't) state"
  assumes "synced Editors scene s" "\<forall>x \<in> set xs. isAttached scene x"
  shows "\<exists>s'. openAll Editors scene s xs = Inr s' \<and> synced Editors scene s' \<and>
           (\<forall>y. slot s y \<noteq> None \<longrightarrow> slot s' y = slot s y) \<and>
           (\<forall>y. slot s y = None \<and> slot s' y \<noteq> None \<longrightarrow> (\<exists>x \<in> set xs. y = x \<or> ancestor y x)) \<and>
           (\<forall>x \<in> set xs. registered Editors scene x \<longrightarrow> slot s' x \<noteq> None)"
  using assms
proof (induction xs arbitrary: s)
  case Nil
  then show ?case by auto
next
  case (Cons x xs)
  have at: "isAttached scene x" using Cons.prems(2) by simp
  from openEditor_total [OF Cons.prems(1) at] obtain r s1 where
    op: "openEditor Editors scene s x = Inr (r, s1)" and post: "open_post Editors scene s x r s1"
    by blast
  have sy1: "synced Editors scene s1" and rs: "slot s1 x = r"
    and rr: "registered Editors scene x \<Longrightarrow> r \<noteq> None" and fr: "opened s s1 x"
    using post unfolding open_post_def by auto
  have f2: "\<And>y. slot s y \<noteq> None \<Longrightarrow> slot s1 y = slot s y"
    and f3: "\<And>y e. slot s y = None \<Longrightarrow> slot s1 y = Some e \<Longrightarrow> y = x \<or> ancestor y x"
    using fr unfolding opened_def by auto
  have "\<forall>x \<in> set xs. isAttached scene x" using Cons.prems(2) by simp
  from Cons.IH [OF sy1 this] obtain s' where
    s': "openAll Editors scene s1 xs = Inr s'" "synced Editors scene s'"
      "\<forall>y. slot s1 y \<noteq> None \<longrightarrow> slot s' y = slot s1 y"
      "\<forall>y. slot s1 y = None \<and> slot s' y \<noteq> None \<longrightarrow> (\<exists>x \<in> set xs. y = x \<or> ancestor y x)"
      "\<forall>x \<in> set xs. registered Editors scene x \<longrightarrow> slot s' x \<noteq> None"
    by blast
  have run: "openAll Editors scene s (x # xs) = Inr s'" using op s'(1) by simp
  have a: "slot s' y = slot s y" if "slot s y \<noteq> None" for y
    using f2 [OF that] s'(3) that by auto
  have b: "\<exists>z \<in> set (x # xs). y = z \<or> ancestor y z" if "slot s y = None" "slot s' y \<noteq> None" for y
  proof (cases "slot s1 y")
    case None
    then show ?thesis using s'(4) that(2) by auto
  next
    case (Some e)
    then show ?thesis using f3 [OF that(1) Some] by auto
  qed
  have c: "slot s' z \<noteq> None" if "z \<in> set (x # xs)" "registered Editors scene z" for z
  proof (cases "z = x")
    case True
    then have "slot s1 z \<noteq> None" using rr rs that(2) by simp
    then show ?thesis using s'(3) by auto
  next
    case False
    then show ?thesis using that s'(5) by auto
  qed
  show ?case using run s'(2) a b c by blast
qed

lemma open_child_position:
  fixes s :: "('p, 't) state"
  assumes sy: "synced Editors scene s" and sp: "slot s P = Some pe"
    and nx: "slot s (i # P) = None" and at: "i < kids scene P"
    and reg: "registered Editors scene (i # P)"
  shows "\<exists>s' before after.
           openEditor Editors scene s (i # P) = Inr (Some (nextId s), s') \<and>
           childList s pe = before @ after \<and>
           childList s' pe = before @ nextId s # after \<and>
           e_parentEditor (heap s' (nextId s)) = Some pe \<and>
           slot s' = (slot s)(i # P \<mapsto> nextId s) \<and>
           (case List.map_filter (\<lambda>j. slot s (j # P)) [Suc i..<kids scene P] of
              [] \<Rightarrow> after = []
            | r # _ \<Rightarrow> r \<notin> set before \<and> (\<exists>tl. after = r # tl))"
proof -
  let ?x = "i # P"
  let ?ed = "nextId s"
  let ?s1 = "s\<lparr>heap := (heap s)(?ed := newEditor ?x), nextId := Suc ?ed\<rparr>"
  have att: "isAttached scene ?x" using at by (simp add: isAttached_Cons)
  note cr = create_step [OF sy reg]
  have sp1: "slot ?s1 P = Some pe" and nx1: "slot ?s1 ?x = None" using sp nx by simp_all
  have between: "slot ?s1 a = None \<and> \<not> registered Editors scene a"
    if "ancestor a ?x" "ancestor P a" for a
  proof -
    have "a = P \<or> ancestor a P" using that(1) by simp
    then have "ancestor a a" using that(2) ancestor_trans [of a P a] by auto
    then show ?thesis using ancestor_irrefl by blast
  qed
  have anc: "ancestor P ?x" by simp
  from attach_step [OF cr(2) cr(3) att reg nx1 anc sp1 between] obtain before after where
    ba: "childList ?s1 pe = before @ after"
    and ins: "insertEditor pe ?ed (findReference scene ?s1 (getNext scene ?x)) ?s1 =
             Inr (modify ?ed (\<lambda>e. e\<lparr>e_parentEditor := Some pe\<rparr>)
                    (modify pe (\<lambda>e. e\<lparr>e_editors := Some (before @ ?ed # after)\<rparr>) ?s1))"
    and pos: "(case findReference scene ?s1 (getNext scene ?x) of
              None \<Rightarrow> after = []
            | Some r \<Rightarrow> r \<notin> set before \<and> (\<exists>tl. after = r # tl))"
    by blast
  let ?s2 = "modify ?ed (\<lambda>e. e\<lparr>e_parentEditor := Some pe\<rparr>)
                    (modify pe (\<lambda>e. e\<lparr>e_editors := Some (before @ ?ed # after)\<rparr>) ?s1)"
  let ?s' = "?s2\<lparr>slot := (slot ?s2)(?x \<mapsto> ?ed)\<rparr>"
  have pe: "pe < ?ed" using slotted_slot(1) [OF synced_parts(2) [OF sy] sp] .
  have lp: "ancestorLoop Editors scene ?s1 ?x ?ed (Some P) = Inr ?s2"
    by (subst ancestorLoop.simps) (simp add: getEditor_def sp ins)
  have run: "openEditor Editors scene s ?x = Inr (Some ?ed, ?s')"
    using att nx by (subst openEditor.simps) (simp add: getEditor_def cr(1) lp)
  have c0: "childList s pe = before @ after" using ba pe by (simp add: childList_def)
  have c1: "childList ?s' pe = before @ ?ed # after" using pe by (simp add: childList_def modify_def)
  have p1: "e_parentEditor (heap ?s' ?ed) = Some pe" by (simp add: modify_def)
  have sl: "slot ?s' = (slot s)(?x \<mapsto> ?ed)" by (simp add: modify_def)
  have "findReference scene ?s1 (getNext scene ?x) =
      (case List.map_filter (\<lambda>j. slot s (j # P)) [Suc i..<kids scene P] of [] \<Rightarrow> None | r # _ \<Rightarrow> Some r)"
    using findReference_later [where scene = scene and s = ?s1 and i = i and q = P] by simp
  then have pos': "(case List.map_filter (\<lambda>j. slot s (j # P)) [Suc i..<kids scene P] of
              [] \<Rightarrow> after = []
            | r # _ \<Rightarrow> r \<notin> set before \<and> (\<exists>tl. after = r # tl))"
    using pos by (cases "List.map_filter (\<lambda>j. slot s (j # P)) [Suc i..<kids scene P]") simp_all
  show ?thesis using run c0 c1 p1 sl pos' by blast
qed

text \<open>
  C1. Let the store be in step with the scene (the store without editors is). For an
  element \<open>P\<close> with a registered kind and any list \<open>is\<close> of indices of children of \<open>P\<close> that
  have registered kinds, in any order and with repetitions: the calls of \<open>openEditor\<close> on
  these children all return normally; afterwards exactly the children that had an editor or
  were opened have one, \<open>P\<close> has an editor as soon as one child was opened, and the editors
  of the children of \<open>P\<close>, as they stand in the array of sub editors of the editor of \<open>P\<close>,
  are the editors of the children that have one, in document order.
  In particular, when \<open>P\<close> has the editor \<open>pe\<close> and its child \<open>i # P\<close> has none, \<open>openEditor\<close>
  on the child puts the new editor into the array of \<open>pe\<close> directly in front of the editor
  of the first later sibling that has one, and at the end when no later sibling has one.
\<close>

theorem open_children_document_order:
  fixes s :: "('p, 't) state"
  assumes sy: "synced Editors scene s"
  shows "(registered Editors scene P \<and>
          (\<forall>i \<in> set is. i < kids scene P \<and> registered Editors scene (i # P)) \<longrightarrow>
            (\<exists>s'. openAll Editors scene s (map (\<lambda>i. i # P) is) = Inr s' \<and>
                  synced Editors scene s' \<and>
                  (\<forall>i. (slot s' (i # P) \<noteq> None) = (slot s (i # P) \<noteq> None \<or> i \<in> set is)) \<and>
                  (is \<noteq> [] \<longrightarrow> slot s' P \<noteq> None) \<and>
                  (\<forall>pe. slot s' P = Some pe \<longrightarrow>
                     childEditors s' P pe =
                       List.map_filter (\<lambda>i. slot s' (i # P)) [0..<kids scene P]))) \<and>
         (slot s P = Some pe \<and> slot s (i # P) = None \<and> i < kids scene P \<and>
          registered Editors scene (i # P) \<longrightarrow>
            (\<exists>s' before after.
               openEditor Editors scene s (i # P) = Inr (Some (nextId s), s') \<and>
               childList s pe = before @ after \<and>
               childList s' pe = before @ nextId s # after \<and>
               e_parentEditor (heap s' (nextId s)) = Some pe \<and>
               slot s' = (slot s)(i # P \<mapsto> nextId s) \<and>
               (case List.map_filter (\<lambda>j. slot s (j # P)) [Suc i..<kids scene P] of
                  [] \<Rightarrow> after = []
                | r # _ \<Rightarrow> r \<notin> set before \<and> (\<exists>tl. after = r # tl))))"
proof (intro conjI impI)
  assume a: "registered Editors scene P \<and>
          (\<forall>i \<in> set is. i < kids scene P \<and> registered Editors scene (i # P))"
  let ?xs = "map (\<lambda>i. i # P) is"
  have att: "\<forall>x \<in> set ?xs. isAttached scene x" using a by (auto simp: isAttached_Cons)
  from openAll_synced [OF sy att] obtain s' where
    s': "openAll Editors scene s ?xs = Inr s'" "synced Editors scene s'"
      "\<forall>y. slot s y \<noteq> None \<longrightarrow> slot s' y = slot s y"
      "\<forall>y. slot s y = None \<and> slot s' y \<noteq> None \<longrightarrow> (\<exists>x \<in> set ?xs. y = x \<or> ancestor y x)"
      "\<forall>x \<in> set ?xs. registered Editors scene x \<longrightarrow> slot s' x \<noteq> None"
    by blast
  have slots: "(slot s' (i # P) \<noteq> None) = (slot s (i # P) \<noteq> None \<or> i \<in> set is)" for i
  proof
    assume n: "slot s' (i # P) \<noteq> None"
    show "slot s (i # P) \<noteq> None \<or> i \<in> set is"
    proof (cases "slot s (i # P)")
      case None
      then obtain j where j: "j \<in> set is" "i # P = j # P \<or> ancestor (i # P) (j # P)"
        using s'(4) n by auto
      have "\<not> ancestor (i # P) (j # P)"
        using ancestor_length [of "i # P" "j # P"] by auto
      then show ?thesis using j by auto
    next
      case (Some e)
      then show ?thesis by simp
    qed
  next
    assume "slot s (i # P) \<noteq> None \<or> i \<in> set is"
    then show "slot s' (i # P) \<noteq> None"
    proof
      assume "slot s (i # P) \<noteq> None"
      then show ?thesis using s'(3) by auto
    next
      assume "i \<in> set is"
      then show ?thesis using s'(5) a by auto
    qed
  qed
  have parent: "slot s' P \<noteq> None" if "is \<noteq> []"
  proof -
    from that obtain i where i: "i \<in> set is" by (cases "is") auto
    then have "slot s' (i # P) \<noteq> None" using slots by blast
    moreover have "ancestor P (i # P)" by simp
    ultimately show ?thesis
      using synced_parts(3) [OF s'(2)] a unfolding mirrored_def by blast
  qed
  have order: "childEditors s' P pe = List.map_filter (\<lambda>i. slot s' (i # P)) [0..<kids scene P]"
    if "slot s' P = Some pe" for pe
    using order_from_synced [OF s'(2) that] .
  show "\<exists>s'. openAll Editors scene s (map (\<lambda>i. i # P) is) = Inr s' \<and>
                  synced Editors scene s' \<and>
                  (\<forall>i. (slot s' (i # P) \<noteq> None) = (slot s (i # P) \<noteq> None \<or> i \<in> set is)) \<and>
                  (is \<noteq> [] \<longrightarrow> slot s' P \<noteq> None) \<and>
                  (\<forall>pe. slot s' P = Some pe \<longrightarrow>
                     childEditors s' P pe =
                       List.map_filter (\<lambda>i. slot s' (i # P)) [0..<kids scene P])"
    using s'(1,2) slots parent order by blast
next
  assume a: "slot s P = Some pe \<and> slot s (i # P) = None \<and> i < kids scene P \<and>
          registered Editors scene (i # P)"
  show "\<exists>s' before after.
               openEditor Editors scene s (i # P) = Inr (Some (nextId s), s') \<and>
               childList s pe = before @ after \<and>
               childList s' pe = before @ nextId s # after \<and>
               e_parentEditor (heap s' (nextId s)) = Some pe \<and>
               slot s' = (slot s)(i # P \<mapsto> nextId s) \<and>
               (case List.map_filter (\<lambda>j. slot s (j # P)) [Suc i..<kids scene P] of
                  [] \<Rightarrow> after = []
                | r # _ \<Rightarrow> r \<notin> set before \<and> (\<exists>tl. after = r # tl))"
    using open_child_position [OF sy] a by blast
qed

text \<open>
  The scenario of the specification: on the scene with the children \<open>A = [0]\<close> and \<open>B = [1]\<close>,
  \<open>openEditor(B)\<close> and then \<open>openEditor(A)\<close> leave the editor of the root with the sub editors
  of \<open>A\<close> and \<open>B\<close>, in this order.
\<close>

lemma synced_empty: "synced exampleRegistry exampleScene emptyState"
  by (simp add: synced_def linked_def slotted_def mirrored_def ordered_def emptyState_def)

lemma synced_afterOpenB: "synced exampleRegistry exampleScene afterOpenB"
proof -
  have "isAttached exampleScene [1]" by (simp add: eval_defs)
  from openEditor_total [OF synced_empty this] afterOpenB_eq
  show ?thesis by (simp add: open_post_def)
qed

lemma example_kids: "kids exampleScene [] = 2"
  by (simp add: kids_def eval_defs)

lemma example_registered:
  "registered exampleRegistry exampleScene []"
  "registered exampleRegistry exampleScene [0]"
  "registered exampleRegistry exampleScene [1]"
  by (simp_all add: registered_def eval_defs)

lemma afterOpenB_slots:
  "slot afterOpenB [] = Some 1" "slot afterOpenB [0] = None" "slot afterOpenB [1] = Some 0"
  "nextId afterOpenB = 2" "childList afterOpenB 1 = [0]"
  by (simp_all add: afterOpenB_def openEditor.simps ancestorLoop.simps findReference.simps eval_defs)

theorem open_children_document_order_witness:
  "synced exampleRegistry exampleScene emptyState \<and>
   registered exampleRegistry exampleScene [] \<and>
   kids exampleScene [] = 2 \<and>
   registered exampleRegistry exampleScene [0] \<and>
   registered exampleRegistry exampleScene [1] \<and>
   (\<exists>s'. openAll exampleRegistry exampleScene emptyState [[1], [0]] = Inr s' \<and>
      slot s' [] = Some 1 \<and> slot s' [0] = Some 2 \<and> slot s' [1] = Some 0 \<and>
      childEditors s' [] 1 = [2, 0]) \<and>
   synced exampleRegistry exampleScene afterOpenB \<and>
   slot afterOpenB [] = Some 1 \<and> slot afterOpenB [0] = None \<and>
   (\<exists>s'. openEditor exampleRegistry exampleScene afterOpenB [0] = Inr (Some 2, s') \<and>
      childList afterOpenB 1 = [0] \<and> childList s' 1 = [2, 0])"
proof -
  have h1: "registered exampleRegistry exampleScene [] \<and>
      (\<forall>i \<in> set [1, 0]. i < kids exampleScene [] \<and> registered exampleRegistry exampleScene (i # []))"
    using example_registered example_kids by simp
  have "\<exists>s'. openAll exampleRegistry exampleScene emptyState (map (\<lambda>i. i # []) [1, 0]) = Inr s' \<and>
      synced exampleRegistry exampleScene s' \<and>
      (\<forall>i. (slot s' (i # []) \<noteq> None) = (slot emptyState (i # []) \<noteq> None \<or> i \<in> set [1, 0])) \<and>
      ([1, 0] \<noteq> [] \<longrightarrow> slot s' [] \<noteq> None) \<and>
      (\<forall>pe. slot s' [] = Some pe \<longrightarrow>
         childEditors s' [] pe = List.map_filter (\<lambda>i. slot s' (i # [])) [0..<kids exampleScene []])"
    using open_children_document_order [OF synced_empty, where P = "[]" and ?is = "[1, 0]"
        and pe = 0 and i = 0] h1 by blast
  then obtain s' where s': "openAll exampleRegistry exampleScene emptyState (map (\<lambda>i. i # []) [1, 0]) = Inr s'"
    "\<forall>pe. slot s' [] = Some pe \<longrightarrow>
       childEditors s' [] pe = List.map_filter (\<lambda>i. slot s' (i # [])) [0..<kids exampleScene []]"
    by blast
  have ev: "\<exists>s''. openAll exampleRegistry exampleScene emptyState [[1], [0]] = Inr s'' \<and>
      slot s'' [] = Some 1 \<and> slot s'' [0] = Some 2 \<and> slot s'' [1] = Some 0"
    by (simp add: openEditor.simps ancestorLoop.simps findReference.simps eval_defs)
  have m: "map (\<lambda>i. i # []) [1, 0] = [[1], [0::nat]]" by simp
  have run: "openAll exampleRegistry exampleScene emptyState [[1], [0]] = Inr s'"
    using s'(1) unfolding m .
  then have sl: "slot s' [] = Some 1" "slot s' [0] = Some 2" "slot s' [1] = Some 0"
    using ev by auto
  have u: "[0..<kids exampleScene []] = [0, 1]" by (simp add: example_kids upt_rec)
  have ce: "childEditors s' [] 1 = [2, 0]" using s'(2) sl unfolding u by simp
  have h2: "slot afterOpenB [] = Some 1 \<and> slot afterOpenB (0 # []) = None \<and> 0 < kids exampleScene [] \<and>
      registered exampleRegistry exampleScene (0 # [])"
    using afterOpenB_slots example_registered example_kids by simp
  have "\<exists>s' before after.
       openEditor exampleRegistry exampleScene afterOpenB (0 # []) = Inr (Some (nextId afterOpenB), s') \<and>
       childList afterOpenB 1 = before @ after \<and>
       childList s' 1 = before @ nextId afterOpenB # after \<and>
       e_parentEditor (heap s' (nextId afterOpenB)) = Some 1 \<and>
       slot s' = (slot afterOpenB)(0 # [] \<mapsto> nextId afterOpenB) \<and>
       (case List.map_filter (\<lambda>j. slot afterOpenB (j # [])) [Suc 0..<kids exampleScene []] of
          [] \<Rightarrow> after = []
        | r # _ \<Rightarrow> r \<notin> set before \<and> (\<exists>tl. after = r # tl))"
    using open_children_document_order [OF synced_afterOpenB, where P = "[]" and ?is = "[]"
        and pe = 1 and i = 0] h2 by blast
  then obtain s'' before after where s'':
    "openEditor exampleRegistry exampleScene afterOpenB [0] = Inr (Some (nextId afterOpenB), s'')"
    "childList afterOpenB 1 = before @ after" "childList s'' 1 = before @ nextId afterOpenB # after"
    "(case List.map_filter (\<lambda>j. slot afterOpenB (j # [])) [Suc 0..<kids exampleScene []] of
          [] \<Rightarrow> after = []
        | r # _ \<Rightarrow> r \<notin> set before \<and> (\<exists>tl. after = r # tl))"
    by blast
  have u2: "[Suc 0..<kids exampleScene []] = [1]" by (simp add: example_kids upt_rec)
  have "\<exists>tl. after = 0 # tl" using s''(4) afterOpenB_slots unfolding u2 by simp
  then obtain tl where tl: "after = 0 # tl" by blast
  have "[0] = before @ 0 # tl" using s''(2) afterOpenB_slots(5) tl by simp
  then have "length before + Suc (length tl) = 1"
    by (metis length_append length_Cons One_nat_def list.size(3))
  then have "after = [0] \<and> before = []" using tl by simp
  then have "childList s'' 1 = [2, 0]" using s''(3) afterOpenB_slots(4) by simp
  then have "\<exists>s'. openEditor exampleRegistry exampleScene afterOpenB [0] = Inr (Some 2, s') \<and>
      childList afterOpenB 1 = [0] \<and> childList s' 1 = [2, 0]"
    using s''(1) afterOpenB_slots(4,5) by auto
  moreover have "\<exists>s'. openAll exampleRegistry exampleScene emptyState [[1], [0]] = Inr s' \<and>
      slot s' [] = Some 1 \<and> slot s' [0] = Some 2 \<and> slot s' [1] = Some 0 \<and>
      childEditors s' [] 1 = [2, 0]"
    using run sl ce by blast
  ultimately show ?thesis
    using synced_empty synced_afterOpenB example_registered example_kids afterOpenB_slots(1,2)
    by blast
qed

section \<open>Closing an editor after opening it\<close>








lemma beneath_self: "beneath False x z \<Longrightarrow> beneath True x z"
  by (auto simp: beneath_def)






lemma childList_slot_update [simp]: "childList (s\<lparr>slot := f\<rparr>) p = childList s p"
  by (simp add: childList_def)
















text \<open>
  The loop of \<open>closeEditor\<close> reads the array that \<open>removeEditor\<close> splices: when the sub
  editor at index \<open>0\<close> has been closed the next one stands at index \<open>0\<close> and the loop goes
  on at index \<open>1\<close>. In the example store with the editors of both children, closing the
  root closes the editor of \<open>A\<close>, and leaves the editor of \<open>B\<close> in its slot and linked to
  the former editor of the root.
\<close>

lemma closeEditor_skips:
  "\<exists>s1 s2. openAll exampleRegistry exampleScene emptyState [[1], [0]] = Inr s1 \<and>
      childList s1 1 = [2, 0] \<and>
      closeEditor 3 exampleRegistry exampleScene (\<lambda>x. 0) s1 [] = Some (Inr s2) \<and>
      slot s2 [] = None \<and> slot s2 [0] = None \<and> slot s2 [1] = Some 0 \<and>
      childList s2 1 = [0] \<and> e_parentEditor (heap s2 0) = Some 1"
  by (simp add: openEditor.simps ancestorLoop.simps findReference.simps
      typeIdOf_def eval_defs numeral_3_eq_3)

end
